theory Spec2Isabelle
  imports Main "HOL-Library.Word"
begin

unbundle bit_operations_syntax

section \<open>The extendible hash table (extendible\_hash\_table.cpp)\<close>

text \<open>
  A bucket carries its capacity \<open>size_\<close>, its local depth \<open>depth_\<close> and the list
  \<open>list_\<close> of key/value pairs, in insertion order.
\<close>

record ('k, 'v) bucket =
  b_size :: nat
  b_depth :: nat
  b_list :: "('k \<times> 'v) list"

text \<open>\<open>Bucket(array_size, depth)\<close>: an empty bucket.\<close>

definition Bucket :: "nat \<Rightarrow> nat \<Rightarrow> ('k, 'v) bucket" where
  "Bucket array_size depth = \<lparr>b_size = array_size, b_depth = depth, b_list = []\<rparr>"

text \<open>
  Modelled from the spec: \<open>Bucket::IsFull\<close>, \<open>Bucket::GetDepth\<close>,
  \<open>Bucket::IncrementDepth\<close> and \<open>Bucket::GetItems\<close> are declared in the header
  extendible\_hash\_table.h, which is not among the sources. A bucket is a collection
  bounded by the configured capacity, so it is full when it holds that many entries.
\<close>

definition IsFull :: "('k, 'v) bucket \<Rightarrow> bool" where
  "IsFull b = (length (b_list b) = b_size b)"

definition IncrementDepth :: "('k, 'v) bucket \<Rightarrow> ('k, 'v) bucket" where
  "IncrementDepth b = b\<lparr>b_depth := b_depth b + 1\<rparr>"

text \<open>\<open>Bucket::Find\<close>: the value of the first entry with the key, if any.\<close>

fun find_entry :: "('k \<times> 'v) list \<Rightarrow> 'k \<Rightarrow> 'v option" where
  "find_entry [] key = None"
| "find_entry ((k, v) # rest) key = (if k = key then Some v else find_entry rest key)"

definition Bucket_Find :: "('k, 'v) bucket \<Rightarrow> 'k \<Rightarrow> 'v option" where
  "Bucket_Find b key = find_entry (b_list b) key"

text \<open>\<open>Bucket::Remove\<close>: erase the first entry with the key; the flag says whether
  there was one.\<close>

fun erase_entry :: "('k \<times> 'v) list \<Rightarrow> 'k \<Rightarrow> bool \<times> ('k \<times> 'v) list" where
  "erase_entry [] key = (False, [])"
| "erase_entry ((k, v) # rest) key =
     (if k = key then (True, rest)
      else (fst (erase_entry rest key), (k, v) # snd (erase_entry rest key)))"

definition Bucket_Remove :: "('k, 'v) bucket \<Rightarrow> 'k \<Rightarrow> bool \<times> ('k, 'v) bucket" where
  "Bucket_Remove b key =
     (fst (erase_entry (b_list b) key), b\<lparr>b_list := snd (erase_entry (b_list b) key)\<rparr>)"

text \<open>\<open>Bucket::Insert\<close>: overwrite the value of the first entry with the key; with no
  such entry, fail on a full bucket and append otherwise.\<close>

fun assign_entry :: "('k \<times> 'v) list \<Rightarrow> 'k \<Rightarrow> 'v \<Rightarrow> ('k \<times> 'v) list option" where
  "assign_entry [] key val = None"
| "assign_entry ((k, v) # rest) key val =
     (if k = key then Some ((k, val) # rest)
      else (case assign_entry rest key val of
              None \<Rightarrow> None
            | Some rest' \<Rightarrow> Some ((k, v) # rest')))"

definition Bucket_Insert :: "('k, 'v) bucket \<Rightarrow> 'k \<Rightarrow> 'v \<Rightarrow> bool \<times> ('k, 'v) bucket" where
  "Bucket_Insert b key val =
     (case assign_entry (b_list b) key val of
        Some l \<Rightarrow> (True, b\<lparr>b_list := l\<rparr>)
      | None \<Rightarrow>
          if IsFull b then (False, b)
          else (True, b\<lparr>b_list := b_list b @ [(key, val)]\<rparr>))"

text \<open>
  The table. The directory \<open>dir_\<close> is a vector of shared pointers, and several slots
  may point to one bucket: the buckets live in a store \<open>heap\<close>, a bucket's address
  is its index there, and \<open>dir\<close> holds addresses. \<open>make_shared\<close> allocates at the end
  of the store. Depths and hash values are natural numbers: \<open>1 << d\<close> is \<open>2 ^ d\<close>,
  which is what the C++ computes while \<open>d\<close> is below the width of \<open>int\<close>.
\<close>

record ('k, 'v) hash_table =
  global_depth :: nat
  bucket_size :: nat
  num_buckets :: nat
  dir :: "nat list"
  heap :: "('k, 'v) bucket list"

definition ExtendibleHashTable :: "nat \<Rightarrow> ('k, 'v) hash_table" where
  "ExtendibleHashTable bsz =
     \<lparr>global_depth = 0, bucket_size = bsz, num_buckets = 1,
      dir = [0], heap = [Bucket bsz 0]\<rparr>"

text \<open>\<open>IndexOf\<close>; the parameter \<open>h\<close> is \<open>std::hash<K>\<close>.\<close>

definition IndexOf :: "('k \<Rightarrow> nat) \<Rightarrow> ('k, 'v) hash_table \<Rightarrow> 'k \<Rightarrow> nat" where
  "IndexOf h t key = (let mask = (2 ^ global_depth t - 1 :: nat) in h key AND mask)"

definition GetGlobalDepthInternal :: "('k, 'v) hash_table \<Rightarrow> nat" where
  "GetGlobalDepthInternal t = global_depth t"

definition GetLocalDepthInternal :: "('k, 'v) hash_table \<Rightarrow> nat \<Rightarrow> nat" where
  "GetLocalDepthInternal t dir_index = b_depth (heap t ! (dir t ! dir_index))"

definition GetNumBucketsInternal :: "('k, 'v) hash_table \<Rightarrow> nat" where
  "GetNumBucketsInternal t = num_buckets t"

definition Find :: "('k \<Rightarrow> nat) \<Rightarrow> ('k, 'v) hash_table \<Rightarrow> 'k \<Rightarrow> 'v option" where
  "Find h t key =
     (let dir_index = IndexOf h t key; b = dir t ! dir_index
      in Bucket_Find (heap t ! b) key)"

definition Remove :: "('k \<Rightarrow> nat) \<Rightarrow> ('k, 'v) hash_table \<Rightarrow> 'k \<Rightarrow> bool \<times> ('k, 'v) hash_table" where
  "Remove h t key =
     (let dir_index = IndexOf h t key; b = dir t ! dir_index;
          r = Bucket_Remove (heap t ! b) key
      in (fst r, t\<lparr>heap := (heap t)[b := snd r]\<rparr>))"

text \<open>
  The first loop of \<open>RedistributeBucket\<close>: every entry whose hash under the new mask
  differs from \<open>old_hash_value\<close> is inserted into the new bucket (the result of that
  \<open>Insert\<close> is dropped, as in the source) and erased from the old list.
\<close>

fun move_entries ::
  "('k \<Rightarrow> nat) \<Rightarrow> nat \<Rightarrow> nat \<Rightarrow> ('k \<times> 'v) list \<Rightarrow> ('k, 'v) bucket
     \<Rightarrow> ('k \<times> 'v) list \<times> ('k, 'v) bucket" where
  "move_entries h curr_mask old_hash_value [] new_bucket = ([], new_bucket)"
| "move_entries h curr_mask old_hash_value ((k, v) # rest) new_bucket =
     (if h k AND curr_mask \<noteq> old_hash_value
      then move_entries h curr_mask old_hash_value rest (snd (Bucket_Insert new_bucket k v))
      else (let r = move_entries h curr_mask old_hash_value rest new_bucket
            in ((k, v) # fst r, snd r)))"

text \<open>The second loop: the slots that now belong to the new bucket.\<close>

definition repoint :: "nat \<Rightarrow> nat \<Rightarrow> nat \<Rightarrow> nat \<Rightarrow> nat list \<Rightarrow> nat list" where
  "repoint old_mask curr_mask old_hash_value new_bucket d =
     map (\<lambda>i. if i AND old_mask = old_hash_value \<and> i AND curr_mask \<noteq> old_hash_value
               then new_bucket else d ! i) [0 ..< length d]"

text \<open>
  \<open>RedistributeBucket(bucket)\<close>, called on the bucket at address \<open>b\<close> after its depth
  was incremented. \<open>lists.front()\<close> is \<open>hd\<close>: the source calls it on the list of a
  bucket that \<open>Insert\<close> found full.
\<close>

definition RedistributeBucket ::
  "('k \<Rightarrow> nat) \<Rightarrow> ('k, 'v) hash_table \<Rightarrow> nat \<Rightarrow> ('k, 'v) hash_table" where
  "RedistributeBucket h t b =
     (let bucket = heap t ! b;
          bucket_depth = b_depth bucket;
          new_bucket = Bucket (bucket_size t) bucket_depth;
          lists = b_list bucket;
          old_mask = (2 ^ (bucket_depth - 1) - 1 :: nat);
          curr_mask = (2 ^ bucket_depth - 1 :: nat);
          old_hash_value = h (fst (hd lists)) AND old_mask;
          r = move_entries h curr_mask old_hash_value lists new_bucket;
          new_addr = length (heap t)
      in t\<lparr>num_buckets := num_buckets t + 1,
            heap := (heap t)[b := bucket\<lparr>b_list := fst r\<rparr>] @ [snd r],
            dir := repoint old_mask curr_mask old_hash_value new_addr (dir t)\<rparr>)"

text \<open>The two branches taken by \<open>Insert\<close> when the target bucket refused the entry:
  double the directory, or split the bucket.\<close>

definition grow_dir :: "('k, 'v) hash_table \<Rightarrow> ('k, 'v) hash_table" where
  "grow_dir t = t\<lparr>global_depth := global_depth t + 1, dir := dir t @ dir t\<rparr>"

definition split_bucket :: "('k \<Rightarrow> nat) \<Rightarrow> ('k, 'v) hash_table \<Rightarrow> nat \<Rightarrow> ('k, 'v) hash_table" where
  "split_bucket h t b =
     RedistributeBucket h (t\<lparr>heap := (heap t)[b := IncrementDepth (heap t ! b)]\<rparr>) b"

definition grow_or_split :: "('k \<Rightarrow> nat) \<Rightarrow> ('k, 'v) hash_table \<Rightarrow> 'k \<Rightarrow> ('k, 'v) hash_table" where
  "grow_or_split h t key =
     (let index = IndexOf h t key in
      if GetLocalDepthInternal t index = GetGlobalDepthInternal t
      then grow_dir t
      else split_bucket h t (dir t ! index))"

text \<open>
  \<open>Insert\<close>: the \<open>while (true)\<close> loop. It may run forever (all keys of a full bucket
  and the new key may hash alike), so the result is an option and \<open>None\<close> is the loop
  that never leaves.
\<close>

partial_function (option) Insert ::
  "('k \<Rightarrow> nat) \<Rightarrow> ('k, 'v) hash_table \<Rightarrow> 'k \<Rightarrow> 'v \<Rightarrow> ('k, 'v) hash_table option" where
  "Insert h t key val =
     (let index = IndexOf h t key; b = dir t ! index;
          r = Bucket_Insert (heap t ! b) key val
      in if fst r then Some (t\<lparr>heap := (heap t)[b := snd r]\<rparr>)
         else Insert h (grow_or_split h t key) key val)"

declare Insert.simps [code]


section \<open>The LRU-K replacer (lru\_k\_replacer.cpp)\<close>

text \<open>
  Modelled from the spec: the class declaration lru\_k\_replacer.h is not among the
  sources. A record of the replacer holds the queue \<open>time_sequence_\<close> of at most \<open>k\<close>
  access timestamps, oldest at the front, and the flag \<open>evictable_\<close>; a fresh record has
  an empty queue and is not evictable. The map \<open>frame_infos_\<close> is a list of pairs
  with one entry per tracked frame; the loop of \<open>Evict\<close> visits it in list order, and a
  new key goes to the end. The counters \<open>current_timestamp_\<close> and \<open>curr_size_\<close> are
  \<open>size_t\<close>, here 64-bit words, and start at zero. Frame ids are \<open>frame_id_t\<close>, a
  signed integer, with \<open>-1\<close> for no frame.
\<close>

record frame_info =
  time_sequence :: "64 word list"
  evictable :: bool

record replacer =
  replacer_size :: nat
  replacer_k :: nat
  frame_infos :: "(int \<times> frame_info) list"
  current_timestamp :: "64 word"
  curr_size :: "64 word"

definition LRUKReplacer :: "nat \<Rightarrow> nat \<Rightarrow> replacer" where
  "LRUKReplacer num_frames k =
     \<lparr>replacer_size = num_frames, replacer_k = k, frame_infos = [],
      current_timestamp = 0, curr_size = 0\<rparr>"

text \<open>\<open>frame_infos_.count(f)\<close>, \<open>frame_infos_[f]\<close> (which makes a fresh record for an
  absent key), the assignment to \<open>frame_infos_[f]\<close> and \<open>frame_infos_.erase(f)\<close>.\<close>

definition tracked :: "replacer \<Rightarrow> int \<Rightarrow> bool" where
  "tracked r f = (f \<in> fst ` set (frame_infos r))"

definition info_at :: "(int \<times> frame_info) list \<Rightarrow> int \<Rightarrow> frame_info" where
  "info_at fi f =
     (case map_of fi f of
        Some i \<Rightarrow> i
      | None \<Rightarrow> \<lparr>time_sequence = [], evictable = False\<rparr>)"

fun info_put :: "(int \<times> frame_info) list \<Rightarrow> int \<Rightarrow> frame_info \<Rightarrow> (int \<times> frame_info) list" where
  "info_put [] f i = [(f, i)]"
| "info_put ((g, j) # rest) f i = (if g = f then (g, i) # rest else (g, j) # info_put rest f i)"

definition info_erase :: "(int \<times> frame_info) list \<Rightarrow> int \<Rightarrow> (int \<times> frame_info) list" where
  "info_erase fi f = filter (\<lambda>kv. fst kv \<noteq> f) fi"

text \<open>The comparator of \<open>Evict\<close>: is frame \<open>a\<close> to be evicted rather than frame \<open>b\<close>?
  \<open>front()\<close> is \<open>hd\<close>; every record of a replacer with \<open>k > 0\<close> has a nonempty queue.\<close>

definition evict_cmp :: "nat \<Rightarrow> (int \<times> frame_info) list \<Rightarrow> int \<Rightarrow> int \<Rightarrow> bool" where
  "evict_cmp k fi a b =
     (if length (time_sequence (info_at fi a)) < k \<and> length (time_sequence (info_at fi b)) = k
      then True
      else if length (time_sequence (info_at fi b)) < k \<and> length (time_sequence (info_at fi a)) = k
      then False
      else hd (time_sequence (info_at fi a)) < hd (time_sequence (info_at fi b)))"

text \<open>The loop of \<open>Evict\<close> over the entries still to visit; \<open>frame_id\<close> is the candidate
  so far, \<open>-1\<close> for none.\<close>

fun evict_loop :: "nat \<Rightarrow> (int \<times> frame_info) list \<Rightarrow> (int \<times> frame_info) list \<Rightarrow> int \<Rightarrow> int" where
  "evict_loop k fi [] frame_id = frame_id"
| "evict_loop k fi (kv # rest) frame_id =
     evict_loop k fi rest
       (if evictable (snd kv)
        then (if frame_id = - 1 \<or> evict_cmp k fi (fst kv) frame_id then fst kv else frame_id)
        else frame_id)"

text \<open>\<open>Evict\<close> returns its flag and the value left in \<open>*frame_id\<close>.\<close>

definition Evict :: "replacer \<Rightarrow> (bool \<times> int) \<times> replacer" where
  "Evict r =
     (let frame_id = evict_loop (replacer_k r) (frame_infos r) (frame_infos r) (- 1) in
      if frame_id \<noteq> - 1
      then ((True, frame_id),
            r\<lparr>frame_infos := info_erase (frame_infos r) frame_id, curr_size := curr_size r - 1\<rparr>)
      else ((False, frame_id), r))"

text \<open>\<open>RecordAccess\<close>; \<open>pop()\<close> drops the front of the queue, \<open>push\<close> appends.\<close>

definition RecordAccess :: "replacer \<Rightarrow> int \<Rightarrow> replacer" where
  "RecordAccess r frame_id =
     (if \<not> tracked r frame_id \<and> replacer_size r = length (frame_infos r) then r
      else
        (let i = info_at (frame_infos r) frame_id;
             q = (if length (time_sequence i) = replacer_k r
                  then tl (time_sequence i) else time_sequence i)
         in r\<lparr>frame_infos :=
                 info_put (frame_infos r) frame_id
                   (i\<lparr>time_sequence := q @ [current_timestamp r]\<rparr>),
               current_timestamp := current_timestamp r + 1\<rparr>))"

definition SetEvictable :: "replacer \<Rightarrow> int \<Rightarrow> bool \<Rightarrow> replacer" where
  "SetEvictable r frame_id set_evictable =
     (if \<not> tracked r frame_id then r
      else
        (let flag = evictable (info_at (frame_infos r) frame_id);
             r1 = r\<lparr>frame_infos :=
                      info_put (frame_infos r) frame_id
                        ((info_at (frame_infos r) frame_id)\<lparr>evictable := set_evictable\<rparr>)\<rparr>
         in if \<not> flag \<and> set_evictable then r1\<lparr>curr_size := curr_size r1 + 1\<rparr>
            else if flag \<and> \<not> set_evictable then r1\<lparr>curr_size := curr_size r1 - 1\<rparr>
            else r1))"

text \<open>What the code throws or fails on, as values.\<close>

datatype error = RemoveNonEvictable | InvalidPageId | NoReturn

text \<open>\<open>Remove\<close> throws on a tracked frame that is not evictable.\<close>

definition Remove_frame :: "replacer \<Rightarrow> int \<Rightarrow> error + replacer" where
  "Remove_frame r frame_id =
     (if \<not> tracked r frame_id then Inr r
      else if \<not> evictable (info_at (frame_infos r) frame_id) then Inl RemoveNonEvictable
      else Inr (r\<lparr>frame_infos := info_erase (frame_infos r) frame_id,
                  curr_size := curr_size r - 1\<rparr>))"

definition Size :: "replacer \<Rightarrow> 64 word" where
  "Size r = curr_size r"

text \<open>The states of a replacer: the constructor's, with \<open>k\<close> at least one, and what the
  operations make of a state; \<open>RecordAccess\<close> is called on frame ids, never on \<open>-1\<close>.\<close>

inductive replacer_reachable :: "replacer \<Rightarrow> bool" where
  replacer_init: "0 < k \<Longrightarrow> replacer_reachable (LRUKReplacer n k)"
| replacer_RecordAccess: "replacer_reachable r \<Longrightarrow> f \<noteq> - 1 \<Longrightarrow>
     replacer_reachable (RecordAccess r f)"
| replacer_SetEvictable: "replacer_reachable r \<Longrightarrow> replacer_reachable (SetEvictable r f b)"
| replacer_Evict: "replacer_reachable r \<Longrightarrow> replacer_reachable (snd (Evict r))"
| replacer_Remove: "replacer_reachable r \<Longrightarrow> Remove_frame r f = Inr r' \<Longrightarrow>
     replacer_reachable r'"

section \<open>The buffer pool manager (buffer\_pool\_manager\_instance.cpp)\<close>

text \<open>
  Modelled from the spec: the class \<open>Page\<close> (page.h), the disk manager and the
  declaration of the manager's members are not among the sources. A frame holds the id
  of its page, the byte buffer, the pin count and the dirty flag; a fresh frame has the
  invalid page id \<open>-1\<close>, a zeroed buffer, pin count 0 and is clean. \<open>ResetMemory\<close>
  zeroes the buffer.
\<close>

record page =
  page_id :: int
  pin_count :: int
  is_dirty :: bool
  data :: "nat list"

definition INVALID_PAGE_ID :: int where
  "INVALID_PAGE_ID = - 1"

definition Page :: "nat \<Rightarrow> page" where
  "Page page_size =
     \<lparr>page_id = INVALID_PAGE_ID, pin_count = 0, is_dirty = False, data = replicate page_size 0\<rparr>"

definition ResetMemory :: "page \<Rightarrow> page" where
  "ResetMemory p = p\<lparr>data := replicate (length (data p)) 0\<rparr>"

text \<open>
  The calls the manager makes to its collaborators are logged in program order:
  \<open>WritePage\<close>, \<open>ReadPage\<close> and \<open>DeallocatePage\<close> of the disk side, and the \<open>Remove\<close>
  and \<open>Insert\<close> calls on the page table. The disk manager is external: \<open>disk\<close> maps a
  page id to the bytes last written, \<open>WritePage\<close> stores the buffer there and \<open>ReadPage\<close>
  gives them back.
\<close>

datatype event =
    DiskWrite int "nat list"
  | DiskRead int
  | Deallocate int
  | TableRemove int
  | TableInsert int int

record bpm =
  pool_size :: nat
  pages :: "page list"
  page_table :: "(int, int) hash_table"
  replacer :: replacer
  free_list :: "int list"
  next_page_id :: int
  disk :: "int \<Rightarrow> nat list"
  trace :: "event list"

text \<open>The constructor; the capacity \<open>bucket_size_\<close> of the page table's buckets and
  the page size are constants of absent headers, taken as parameters, as is the
  initial content of the disk.\<close>

definition BufferPoolManagerInstance ::
  "nat \<Rightarrow> nat \<Rightarrow> nat \<Rightarrow> nat \<Rightarrow> (int \<Rightarrow> nat list) \<Rightarrow> bpm" where
  "BufferPoolManagerInstance psize k bsz page_size dsk =
     \<lparr>pool_size = psize,
      pages = replicate psize (Page page_size),
      page_table = ExtendibleHashTable bsz,
      replacer = LRUKReplacer psize k,
      free_list = map int [0 ..< psize],
      next_page_id = 0,
      disk = dsk,
      trace = []\<rparr>"

definition WritePage :: "bpm \<Rightarrow> int \<Rightarrow> nat list \<Rightarrow> bpm" where
  "WritePage s pid buf = s\<lparr>disk := (disk s)(pid := buf), trace := trace s @ [DiskWrite pid buf]\<rparr>"

text \<open>
  The frame acquisition, written twice in the source with the same lines (in
  \<open>NewPgImp\<close> and in \<open>FetchPgImp\<close>): the front of the free list if there is one; else the
  victim of the replacer, written back if dirty and then unbound in the page table;
  else nothing.
\<close>

definition acquire_frame :: "(int \<Rightarrow> nat) \<Rightarrow> bpm \<Rightarrow> (int \<times> bpm) option" where
  "acquire_frame h s =
     (if free_list s \<noteq> [] then Some (hd (free_list s), s\<lparr>free_list := tl (free_list s)\<rparr>)
      else
        (let e = Evict (replacer s) in
         if fst (fst e) then
           (let frame_id = snd (fst e);
                s1 = s\<lparr>replacer := snd e\<rparr>;
                victim = pages s1 ! nat frame_id;
                s2 = (if is_dirty victim then WritePage s1 (page_id victim) (data victim) else s1);
                s3 = s2\<lparr>page_table := snd (Remove h (page_table s2) (page_id victim)),
                        trace := trace s2 @ [TableRemove (page_id victim)]\<rparr>
            in Some (frame_id, s3))
         else None))"

text \<open>\<open>NewPgImp\<close>: the result is the new page id and the frame of the page returned, or
  nothing for \<open>nullptr\<close>. The page table's \<open>Insert\<close> may not return.\<close>

definition NewPgImp :: "(int \<Rightarrow> nat) \<Rightarrow> bpm \<Rightarrow> error + ((int \<times> int) option \<times> bpm)" where
  "NewPgImp h s =
     (case acquire_frame h s of
        None \<Rightarrow> Inr (None, s)
      | Some (frame_id, s1) \<Rightarrow>
          (let pid = next_page_id s1;
               s2 = s1\<lparr>next_page_id := next_page_id s1 + 1\<rparr>
           in case Insert h (page_table s2) pid frame_id of
                None \<Rightarrow> Inl NoReturn
              | Some pt \<Rightarrow>
                  (let s3 = s2\<lparr>page_table := pt, trace := trace s2 @ [TableInsert pid frame_id]\<rparr>;
                       pg = (ResetMemory (pages s3 ! nat frame_id))
                              \<lparr>page_id := pid, pin_count := 1, is_dirty := False\<rparr>;
                       s4 = s3\<lparr>pages := (pages s3)[nat frame_id := pg]\<rparr>;
                       s5 = s4\<lparr>replacer :=
                                 SetEvictable (RecordAccess (replacer s4) frame_id) frame_id False\<rparr>
                   in Inr (Some (pid, frame_id), s5))))"

text \<open>\<open>FetchPgImp\<close>: the result is the frame of the page returned. The assertion on
  the page id is an error of its own.\<close>

definition FetchPgImp :: "(int \<Rightarrow> nat) \<Rightarrow> bpm \<Rightarrow> int \<Rightarrow> error + (int option \<times> bpm)" where
  "FetchPgImp h s pid =
     (if pid = INVALID_PAGE_ID then Inl InvalidPageId
      else
        (case Find h (page_table s) pid of
           Some frame_id \<Rightarrow>
             (let s1 = s\<lparr>replacer :=
                          SetEvictable (RecordAccess (replacer s) frame_id) frame_id False\<rparr>;
                  pg = pages s1 ! nat frame_id;
                  s2 = s1\<lparr>pages := (pages s1)[nat frame_id := pg\<lparr>pin_count := pin_count pg + 1\<rparr>]\<rparr>
              in Inr (Some frame_id, s2))
         | None \<Rightarrow>
             (case acquire_frame h s of
                None \<Rightarrow> Inr (None, s)
              | Some (frame_id, s1) \<Rightarrow>
                  (case Insert h (page_table s1) pid frame_id of
                     None \<Rightarrow> Inl NoReturn
                   | Some pt \<Rightarrow>
                       (let s2 = s1\<lparr>page_table := pt,
                                    trace := trace s1 @ [TableInsert pid frame_id]\<rparr>;
                            pg = (ResetMemory (pages s2 ! nat frame_id))
                                   \<lparr>page_id := pid, pin_count := 1, is_dirty := False\<rparr>;
                            s3 = s2\<lparr>pages := (pages s2)[nat frame_id := pg\<lparr>data := disk s2 pid\<rparr>],
                                    trace := trace s2 @ [DiskRead pid]\<rparr>;
                            s4 = s3\<lparr>replacer :=
                                      SetEvictable (RecordAccess (replacer s3) frame_id) frame_id False\<rparr>
                        in Inr (Some frame_id, s4))))))"

definition UnpinPgImp :: "(int \<Rightarrow> nat) \<Rightarrow> bpm \<Rightarrow> int \<Rightarrow> bool \<Rightarrow> bool \<times> bpm" where
  "UnpinPgImp h s pid dirty =
     (case Find h (page_table s) pid of
        None \<Rightarrow> (False, s)
      | Some frame_id \<Rightarrow>
          if pin_count (pages s ! nat frame_id) = 0 then (False, s)
          else
            (let pg = pages s ! nat frame_id;
                 pg' = pg\<lparr>pin_count := pin_count pg - 1, is_dirty := (is_dirty pg \<or> dirty)\<rparr>;
                 s1 = s\<lparr>pages := (pages s)[nat frame_id := pg']\<rparr>;
                 s2 = (if pin_count pg' = 0
                       then s1\<lparr>replacer := SetEvictable (replacer s1) frame_id True\<rparr>
                       else s1)
             in (True, s2)))"

text \<open>\<open>pages_->is_dirty_ = false\<close> writes the flag of the first frame of the array.\<close>

definition clear_first_dirty :: "bpm \<Rightarrow> bpm" where
  "clear_first_dirty s = s\<lparr>pages := (pages s)[0 := (pages s ! 0)\<lparr>is_dirty := False\<rparr>]\<rparr>"

definition FlushPgImp :: "(int \<Rightarrow> nat) \<Rightarrow> bpm \<Rightarrow> int \<Rightarrow> bool \<times> bpm" where
  "FlushPgImp h s pid =
     (case Find h (page_table s) pid of
        None \<Rightarrow> (False, s)
      | Some frame_id \<Rightarrow>
          (let pg = pages s ! nat frame_id;
               s1 = WritePage s (page_id pg) (data pg)
           in (True, clear_first_dirty s1)))"

fun flush_frames :: "(int \<Rightarrow> nat) \<Rightarrow> bpm \<Rightarrow> nat list \<Rightarrow> bpm" where
  "flush_frames h s [] = s"
| "flush_frames h s (frame_id # rest) =
     flush_frames h
       (case Find h (page_table s) (page_id (pages s ! frame_id)) of
          None \<Rightarrow> s
        | Some tmp \<Rightarrow>
            clear_first_dirty
              (WritePage s (page_id (pages s ! frame_id)) (data (pages s ! frame_id))))
       rest"

definition FlushAllPgsImp :: "(int \<Rightarrow> nat) \<Rightarrow> bpm \<Rightarrow> bpm" where
  "FlushAllPgsImp h s = flush_frames h s [0 ..< pool_size s]"

text \<open>\<open>DeletePgImp\<close>; the replacer's \<open>Remove\<close> may throw.\<close>

definition DeletePgImp :: "(int \<Rightarrow> nat) \<Rightarrow> bpm \<Rightarrow> int \<Rightarrow> error + (bool \<times> bpm)" where
  "DeletePgImp h s pid =
     (let s0 = s\<lparr>trace := trace s @ [Deallocate pid]\<rparr> in
      case Find h (page_table s0) pid of
        None \<Rightarrow> Inr (True, s0)
      | Some frame_id \<Rightarrow>
          if pin_count (pages s0 ! nat frame_id) > 0 then Inr (False, s0)
          else
            (let pg = pages s0 ! nat frame_id;
                 s1 = (if is_dirty pg
                       then clear_first_dirty (WritePage s0 (page_id pg) (data pg))
                       else s0)
             in case Remove_frame (replacer s1) frame_id of
                  Inl e \<Rightarrow> Inl e
                | Inr r \<Rightarrow>
                    Inr (True,
                         s1\<lparr>replacer := r,
                            free_list := free_list s1 @ [frame_id],
                            page_table := snd (Remove h (page_table s1) pid),
                            trace := trace s1 @ [TableRemove pid]\<rparr>)))"

text \<open>The states of the manager: the constructor's and what the public operations,
  when they return, make of a state.\<close>

inductive bpm_reachable :: "(int \<Rightarrow> nat) \<Rightarrow> bpm \<Rightarrow> bool" for h where
  bpm_init: "0 < k \<Longrightarrow> 0 < bsz \<Longrightarrow>
     bpm_reachable h (BufferPoolManagerInstance psize k bsz page_size dsk)"
| bpm_NewPg: "bpm_reachable h s \<Longrightarrow> NewPgImp h s = Inr (res, s') \<Longrightarrow> bpm_reachable h s'"
| bpm_FetchPg: "bpm_reachable h s \<Longrightarrow> FetchPgImp h s pid = Inr (fres, s') \<Longrightarrow> bpm_reachable h s'"
| bpm_UnpinPg: "bpm_reachable h s \<Longrightarrow> bpm_reachable h (snd (UnpinPgImp h s pid dirty))"
| bpm_FlushPg: "bpm_reachable h s \<Longrightarrow> bpm_reachable h (snd (FlushPgImp h s pid))"
| bpm_FlushAllPgs: "bpm_reachable h s \<Longrightarrow> bpm_reachable h (FlushAllPgsImp h s)"
| bpm_DeletePg: "bpm_reachable h s \<Longrightarrow> DeletePgImp h s pid = Inr (b, s') \<Longrightarrow> bpm_reachable h s'"

section \<open>Invariants and notions used in the statements\<close>

text \<open>
  The invariant of the table. For every directory slot \<open>i\<close> and the bucket \<open>B\<close> it
  points to: the address is allocated; the local depth is at most the global depth;
  \<open>B\<close> has the table's capacity and holds no more entries than that, under distinct
  keys; every key of \<open>B\<close> agrees with \<open>i\<close> in the low \<open>b_depth B\<close> bits of its hash
  (\<open>take_bit n x\<close> is \<open>x mod 2 ^ n\<close>, the low \<open>n\<close> bits of \<open>x\<close>); and the slots pointing
  to \<open>B\<close> are exactly those that agree with \<open>i\<close> in these bits.
\<close>

definition slot_inv :: "('k \<Rightarrow> nat) \<Rightarrow> ('k, 'v) hash_table \<Rightarrow> nat \<Rightarrow> bool" where
  "slot_inv h t i =
     (dir t ! i < length (heap t) \<and>
      (let B = heap t ! (dir t ! i) in
         b_depth B \<le> global_depth t \<and>
         b_size B = bucket_size t \<and>
         length (b_list B) \<le> b_size B \<and>
         distinct (map fst (b_list B)) \<and>
         (\<forall>k \<in> fst ` set (b_list B). take_bit (b_depth B) (h k) = take_bit (b_depth B) i) \<and>
         (\<forall>j \<in> {0 ..< length (dir t)}.
            (dir t ! j = dir t ! i) = (take_bit (b_depth B) j = take_bit (b_depth B) i))))"

definition table_inv :: "('k \<Rightarrow> nat) \<Rightarrow> ('k, 'v) hash_table \<Rightarrow> bool" where
  "table_inv h t =
     (0 < bucket_size t \<and>
      length (dir t) = 2 ^ global_depth t \<and>
      num_buckets t = length (heap t) \<and>
      (\<forall>i \<in> {0 ..< length (dir t)}. slot_inv h t i))"

definition stays :: "('k \<Rightarrow> nat) \<Rightarrow> nat \<Rightarrow> nat \<Rightarrow> 'k \<times> 'v \<Rightarrow> bool" where
  "stays h curr_mask old_hash_value kv = (h (fst kv) AND curr_mask = old_hash_value)"



definition is_evictable :: "replacer \<Rightarrow> int \<Rightarrow> bool" where
  "is_evictable r f = evictable (info_at (frame_infos r) f)"

definition history :: "replacer \<Rightarrow> int \<Rightarrow> 64 word list" where
  "history r f = time_sequence (info_at (frame_infos r) f)"

definition replacer_inv :: "replacer \<Rightarrow> bool" where
  "replacer_inv r =
     (0 < replacer_k r \<and>
      distinct (map fst (frame_infos r)) \<and>
      (\<forall>kv \<in> set (frame_infos r).
         fst kv \<noteq> - 1 \<and> time_sequence (snd kv) \<noteq> [] \<and>
         length (time_sequence (snd kv)) \<le> replacer_k r))"

text \<open>The policy in the words of the spec: \<open>v\<close> is a legitimate choice against \<open>f\<close> when
  \<open>f\<close> is not preferred over \<open>v\<close>: it is not the case that \<open>f\<close> has fewer than \<open>k\<close> accesses
  while \<open>v\<close> has \<open>k\<close>, and within the same group \<open>v\<close>'s front timestamp is not the larger.\<close>

definition chosen_over :: "replacer \<Rightarrow> int \<Rightarrow> int \<Rightarrow> bool" where
  "chosen_over r v f =
     ((length (history r f) < replacer_k r \<longrightarrow> length (history r v) < replacer_k r) \<and>
      ((length (history r f) < replacer_k r) = (length (history r v) < replacer_k r) \<longrightarrow>
         hd (history r v) \<le> hd (history r f)))"

definition evictable_keys :: "(int \<times> frame_info) list \<Rightarrow> int set" where
  "evictable_keys xs = {f. \<exists>i. (f, i) \<in> set xs \<and> evictable i}"

text \<open>
  The invariant of the manager: the invariants of the page table and of the replacer;
  the replacer has room for every frame and tracks frames of the pool only; the free
  list holds distinct frames of the pool, none of them bound in the page table; a page
  id bound in the page table is bound to a tracked frame that holds this page; and a
  tracked frame is evictable exactly when its pin count is zero, and no pin count of a
  tracked frame is negative.
\<close>

definition bpm_inv :: "(int \<Rightarrow> nat) \<Rightarrow> bpm \<Rightarrow> bool" where
  "bpm_inv h s =
     (table_inv h (page_table s) \<and>
      replacer_inv (replacer s) \<and>
      replacer_size (replacer s) = pool_size s \<and>
      length (pages s) = pool_size s \<and>
      distinct (free_list s) \<and>
      (\<forall>f. tracked (replacer s) f \<longrightarrow> 0 \<le> f \<and> f < int (pool_size s)) \<and>
      (\<forall>f \<in> set (free_list s). 0 \<le> f \<and> f < int (pool_size s) \<and>
           (\<forall>p. Find h (page_table s) p \<noteq> Some f)) \<and>
      (\<forall>p f. Find h (page_table s) p = Some f \<longrightarrow>
           tracked (replacer s) f \<and> page_id (pages s ! nat f) = p) \<and>
      (\<forall>f. tracked (replacer s) f \<longrightarrow>
           is_evictable (replacer s) f = (pin_count (pages s ! nat f) = 0) \<and>
           0 \<le> pin_count (pages s ! nat f)))"

section \<open>Concrete inputs\<close>








definition replacer_B :: replacer where
  "replacer_B = RecordAccess (LRUKReplacer 7 2) 1"

definition replacer_C :: replacer where
  "replacer_C = SetEvictable (RecordAccess (LRUKReplacer 7 2) 1) 1 True"

definition hash_int :: "int \<Rightarrow> nat" where
  "hash_int k = nat (k mod 2 ^ 64)"

definition bpm0 :: bpm where
  "bpm0 = BufferPoolManagerInstance 2 2 4 8 (\<lambda>p. replicate 8 0)"

datatype op = NewPg | FetchPg int | UnpinPg int bool | FlushPg int | FlushAllPgs | DeletePg int

fun run :: "(int \<Rightarrow> nat) \<Rightarrow> bpm \<Rightarrow> op list \<Rightarrow> bpm option" where
  "run h s [] = Some s"
| "run h s (NewPg # ops) =
     (case NewPgImp h s of Inl e \<Rightarrow> None | Inr rs \<Rightarrow> run h (snd rs) ops)"
| "run h s (FetchPg p # ops) =
     (case FetchPgImp h s p of Inl e \<Rightarrow> None | Inr rs \<Rightarrow> run h (snd rs) ops)"
| "run h s (UnpinPg p d # ops) = run h (snd (UnpinPgImp h s p d)) ops"
| "run h s (FlushPg p # ops) = run h (snd (FlushPgImp h s p)) ops"
| "run h s (FlushAllPgs # ops) = run h (FlushAllPgsImp h s) ops"
| "run h s (DeletePg p # ops) =
     (case DeletePgImp h s p of Inl e \<Rightarrow> None | Inr rs \<Rightarrow> run h (snd rs) ops)"

definition after :: "op list \<Rightarrow> bpm" where
  "after ops = (case run hash_int bpm0 ops of Some s \<Rightarrow> s | None \<Rightarrow> bpm0)"

section \<open>Bucket lists\<close>

lemma find_entry_map_of: "find_entry l k = map_of l k"
  by (induction l) auto

lemma erase_entry_fst: "fst (erase_entry l k) = (k \<in> fst ` set l)"
  by (induction l) (auto simp: rev_image_eqI)

lemma erase_entry_snd_Cons:
  "snd (erase_entry ((k0, v0) # l) k) = (if k0 = k then l else (k0, v0) # snd (erase_entry l k))"
  by simp

lemma erase_entry_snd_Nil: "snd (erase_entry [] k) = []"
  by simp

lemma erase_entry_keys: "distinct (map fst l) \<Longrightarrow> fst ` set (snd (erase_entry l k)) = fst ` set l - {k}"
proof (induction l)
  case Nil
  then show ?case by simp
next
  case (Cons a l)
  obtain k0 v0 where a: "a = (k0, v0)" by (cases a)
  from Cons a show ?case
    by (cases "k0 = k") (auto simp only: erase_entry_snd_Cons if_True if_False list.set image_insert
        fst_conv distinct.simps list.map set_map split: if_splits)
qed

lemma erase_entry_distinct: "distinct (map fst l) \<Longrightarrow> distinct (map fst (snd (erase_entry l k)))"
proof (induction l)
  case Nil
  then show ?case by simp
next
  case (Cons a l)
  obtain k0 v0 where a: "a = (k0, v0)" by (cases a)
  from Cons a erase_entry_keys [of l k] show ?case
    by (cases "k0 = k") (auto simp only: erase_entry_snd_Cons if_True if_False list.set image_insert
        fst_conv distinct.simps list.map set_map split: if_splits)
qed

lemma erase_entry_length: "length (snd (erase_entry l k)) \<le> length l"
  by (induction l) auto

lemma erase_entry_map_of:
  "distinct (map fst l) \<Longrightarrow> map_of (snd (erase_entry l k)) = (map_of l)(k := None)"
proof (induction l)
  case Nil
  then show ?case by simp
next
  case (Cons a l)
  obtain k0 v0 where a: "a = (k0, v0)" by (cases a)
  show ?case
  proof (cases "k0 = k")
    case True
    with Cons.prems a have "map_of l k = None"
      by (simp add: map_of_eq_None_iff)
    with True a show ?thesis by (auto simp: fun_eq_iff)
  next
    case False
    with Cons a show ?thesis by (auto simp: fun_eq_iff)
  qed
qed

lemma assign_entry_None: "(assign_entry l k v = None) = (k \<notin> fst ` set l)"
  by (induction l) (auto split: option.splits if_splits)

lemma assign_entry_Some:
  "assign_entry l k v = Some l' \<Longrightarrow>
     map fst l' = map fst l \<and> map_of l' = (map_of l)(k \<mapsto> v)"
  by (induction l arbitrary: l') (auto split: option.splits if_splits simp: fun_upd_twist)

lemma Bucket_Insert_fresh:
  "k \<notin> fst ` set (b_list b) \<Longrightarrow>
     Bucket_Insert b k v =
       (if IsFull b then (False, b) else (True, b\<lparr>b_list := b_list b @ [(k, v)]\<rparr>))"
  using assign_entry_None [of "b_list b" k v]
  by (auto simp: Bucket_Insert_def split: option.splits)

lemma Bucket_Insert_present:
  "k \<in> fst ` set (b_list b) \<Longrightarrow>
     \<exists>l'. Bucket_Insert b k v = (True, b\<lparr>b_list := l'\<rparr>) \<and>
          map fst l' = map fst (b_list b) \<and> map_of l' = (map_of (b_list b))(k \<mapsto> v)"
proof -
  assume "k \<in> fst ` set (b_list b)"
  then obtain l' where l': "assign_entry (b_list b) k v = Some l'"
    using assign_entry_None [of "b_list b" k v] by auto
  with assign_entry_Some [OF l'] show ?thesis
    by (auto simp: Bucket_Insert_def)
qed

lemma Bucket_Insert_fails:
  "\<not> fst (Bucket_Insert b k v) \<Longrightarrow>
     snd (Bucket_Insert b k v) = b \<and> k \<notin> fst ` set (b_list b) \<and> IsFull b"
proof (cases "k \<in> fst ` set (b_list b)")
  case True
  assume "\<not> fst (Bucket_Insert b k v)"
  with Bucket_Insert_present [OF True, of v] show ?thesis by auto
next
  case False
  assume "\<not> fst (Bucket_Insert b k v)"
  with False show ?thesis by (auto simp: Bucket_Insert_fresh split: if_splits)
qed

lemma Bucket_Insert_fields:
  "b_size (snd (Bucket_Insert b k v)) = b_size b \<and>
   b_depth (snd (Bucket_Insert b k v)) = b_depth b"
  by (auto simp: Bucket_Insert_def split: option.splits)

lemma Bucket_Insert_ok:
  assumes "fst (Bucket_Insert b k v)"
  shows "map_of (b_list (snd (Bucket_Insert b k v))) = (map_of (b_list b))(k \<mapsto> v)"
    and "fst ` set (b_list (snd (Bucket_Insert b k v))) = insert k (fst ` set (b_list b))"
    and "distinct (map fst (b_list b)) \<Longrightarrow> distinct (map fst (b_list (snd (Bucket_Insert b k v))))"
    and "length (b_list b) \<le> b_size b \<Longrightarrow>
           length (b_list (snd (Bucket_Insert b k v))) \<le> b_size b"
proof -
  let ?b' = "snd (Bucket_Insert b k v)"
  have "map_of (b_list ?b') = (map_of (b_list b))(k \<mapsto> v) \<and>
        fst ` set (b_list ?b') = insert k (fst ` set (b_list b)) \<and>
        (distinct (map fst (b_list b)) \<longrightarrow> distinct (map fst (b_list ?b'))) \<and>
        (length (b_list b) \<le> b_size b \<longrightarrow> length (b_list ?b') \<le> b_size b)"
  proof (cases "k \<in> fst ` set (b_list b)")
    case True
    from Bucket_Insert_present [OF True, of v] obtain l' where
      eq: "Bucket_Insert b k v = (True, b\<lparr>b_list := l'\<rparr>)" and
      keys: "map fst l' = map fst (b_list b)" and
      mp: "map_of l' = (map_of (b_list b))(k \<mapsto> v)" by blast
    from keys have "set (map fst l') = set (map fst (b_list b))"
      and "length (map fst l') = length (map fst (b_list b))" by simp_all
    then have "fst ` set l' = fst ` set (b_list b)" and "length l' = length (b_list b)"
      by simp_all
    with eq keys mp True show ?thesis by auto
  next
    case False
    with assms have eq: "Bucket_Insert b k v = (True, b\<lparr>b_list := b_list b @ [(k, v)]\<rparr>)"
      and nf: "\<not> IsFull b"
      by (auto simp: Bucket_Insert_fresh split: if_splits)
    from False have "map_of (b_list b) k = None"
      by (simp add: map_of_eq_None_iff)
    then have "map_of (b_list b @ [(k, v)]) = (map_of (b_list b))(k \<mapsto> v)"
      by (auto simp: fun_eq_iff map_add_def split: option.splits)
    with eq nf False show ?thesis by (auto simp: IsFull_def)
  qed
  then show "map_of (b_list ?b') = (map_of (b_list b))(k \<mapsto> v)"
    and "fst ` set (b_list ?b') = insert k (fst ` set (b_list b))"
    and "distinct (map fst (b_list b)) \<Longrightarrow> distinct (map fst (b_list ?b'))"
    and "length (b_list b) \<le> b_size b \<Longrightarrow> length (b_list ?b') \<le> b_size b"
    by blast+
qed

lemma move_entries_filter:
  "distinct (map fst l) \<Longrightarrow> fst ` set l \<inter> fst ` set (b_list nb) = {} \<Longrightarrow>
   length (b_list nb) + length l \<le> b_size nb \<Longrightarrow>
   move_entries h cm ohv l nb =
     (filter (stays h cm ohv) l,
      nb\<lparr>b_list := b_list nb @ filter (\<lambda>kv. \<not> stays h cm ohv kv) l\<rparr>)"
proof (induction l arbitrary: nb)
  case Nil
  then show ?case by simp
next
  case (Cons a l)
  obtain k v where a: "a = (k, v)" by (cases a)
  show ?case
  proof (cases "h k AND cm = ohv")
    case True
    from Cons.prems a have "move_entries h cm ohv l nb =
     (filter (stays h cm ohv) l,
      nb\<lparr>b_list := b_list nb @ filter (\<lambda>kv. \<not> stays h cm ohv kv) l\<rparr>)"
      by (intro Cons.IH) auto
    with True a show ?thesis by (simp add: stays_def [abs_def])
  next
    case False
    from Cons.prems a have fresh: "k \<notin> fst ` set (b_list nb)" by auto
    from Cons.prems have nf: "\<not> IsFull nb" by (auto simp: IsFull_def)
    let ?nb = "nb\<lparr>b_list := b_list nb @ [(k, v)]\<rparr>"
    have ins: "snd (Bucket_Insert nb k v) = ?nb"
      using fresh nf by (simp add: Bucket_Insert_fresh)
    from Cons.prems a have "move_entries h cm ohv l ?nb =
     (filter (stays h cm ohv) l,
      ?nb\<lparr>b_list := b_list ?nb @ filter (\<lambda>kv. \<not> stays h cm ohv kv) l\<rparr>)"
      by (intro Cons.IH) auto
    with False a ins show ?thesis by (simp add: stays_def [abs_def])
  qed
qed

lemma find_entry_filter:
  "find_entry (filter (\<lambda>kv. Q (fst kv)) l) k = (if Q k then find_entry l k else None)"
  by (induction l) auto

section \<open>Low bits of indices and hash values\<close>

lemma and_low_mask: "(x::nat) AND (2 ^ n - 1) = take_bit n x"
  unfolding mask_eq_exp_minus_1 [symmetric] take_bit_eq_mask [symmetric] ..

lemma IndexOf_low: "IndexOf h t key = take_bit (global_depth t) (h key)"
  unfolding IndexOf_def Let_def and_low_mask ..

lemma low_mono:
  fixes x y :: nat
  assumes "m \<le> n" and "take_bit n x = take_bit n y"
  shows "take_bit m x = take_bit m y"
proof -
  have "take_bit m x = take_bit m (take_bit n x)" using assms(1) by (simp add: min_def)
  also have "\<dots> = take_bit m (take_bit n y)" using assms(2) by simp
  also have "\<dots> = take_bit m y" using assms(1) by (simp add: min_def)
  finally show ?thesis .
qed

lemma low_Suc:
  fixes x :: nat
  shows "take_bit (Suc d) x = take_bit d x + (if bit x d then 2 ^ d else 0)"
  using take_bit_Suc_from_most [of d x] by simp

lemma low_Suc_same:
  fixes x y :: nat
  assumes "take_bit d x = take_bit d y"
  shows "(take_bit (Suc d) x = take_bit (Suc d) y) = (bit x d = bit y d)"
  using assms by (simp add: low_Suc)

lemma low_Suc_moved:
  fixes x :: nat
  assumes "take_bit d x = r"
  shows "(take_bit (Suc d) x \<noteq> r) = bit x d"
  using assms by (simp add: low_Suc)

lemma low_Suc_down:
  fixes x y :: nat
  assumes "take_bit (Suc d) x = take_bit (Suc d) y"
  shows "take_bit d x = take_bit d y" and "bit x d = bit y d"
proof -
  show a: "take_bit d x = take_bit d y"
    using low_mono [of d "Suc d" x y] assms by simp
  show "bit x d = bit y d"
    using low_Suc_same [OF a] assms by simp
qed

lemma low_Suc_iff:
  fixes j j' :: nat
  assumes "take_bit d j = r"
  shows "(take_bit (Suc d) j' = take_bit (Suc d) j) = (take_bit d j' = r \<and> bit j' d = bit j d)"
proof
  assume a: "take_bit (Suc d) j' = take_bit (Suc d) j"
  from low_Suc_down [OF a] assms show "take_bit d j' = r \<and> bit j' d = bit j d" by simp
next
  assume a: "take_bit d j' = r \<and> bit j' d = bit j d"
  with assms have "take_bit d j' = take_bit d j" by simp
  from low_Suc_same [OF this] a show "take_bit (Suc d) j' = take_bit (Suc d) j" by simp
qed

section \<open>The invariant of the hash table\<close>

lemma slot_invD:
  assumes "table_inv h t" and "i < length (dir t)"
  shows "dir t ! i < length (heap t)"
    and "b_depth (heap t ! (dir t ! i)) \<le> global_depth t"
    and "b_size (heap t ! (dir t ! i)) = bucket_size t"
    and "length (b_list (heap t ! (dir t ! i))) \<le> bucket_size t"
    and "distinct (map fst (b_list (heap t ! (dir t ! i))))"
    and "\<And>k. k \<in> fst ` set (b_list (heap t ! (dir t ! i))) \<Longrightarrow>
           take_bit (b_depth (heap t ! (dir t ! i))) (h k) =
           take_bit (b_depth (heap t ! (dir t ! i))) i"
    and "\<And>j. j < length (dir t) \<Longrightarrow>
           (dir t ! j = dir t ! i) =
           (take_bit (b_depth (heap t ! (dir t ! i))) j =
            take_bit (b_depth (heap t ! (dir t ! i))) i)"
proof -
  from assms have s: "slot_inv h t i" by (simp add: table_inv_def)
  from s show "dir t ! i < length (heap t)"
    and "b_depth (heap t ! (dir t ! i)) \<le> global_depth t"
    and "b_size (heap t ! (dir t ! i)) = bucket_size t"
    and "length (b_list (heap t ! (dir t ! i))) \<le> bucket_size t"
    and "distinct (map fst (b_list (heap t ! (dir t ! i))))"
    unfolding slot_inv_def Let_def by auto
  from s show "\<And>k. k \<in> fst ` set (b_list (heap t ! (dir t ! i))) \<Longrightarrow>
           take_bit (b_depth (heap t ! (dir t ! i))) (h k) =
           take_bit (b_depth (heap t ! (dir t ! i))) i"
    unfolding slot_inv_def Let_def by blast
  from s show "\<And>j. j < length (dir t) \<Longrightarrow>
           (dir t ! j = dir t ! i) =
           (take_bit (b_depth (heap t ! (dir t ! i))) j =
            take_bit (b_depth (heap t ! (dir t ! i))) i)"
    unfolding slot_inv_def Let_def by simp
qed

lemma table_invD:
  assumes "table_inv h t"
  shows "0 < bucket_size t" and "length (dir t) = 2 ^ global_depth t"
    and "num_buckets t = length (heap t)"
  using assms unfolding table_inv_def by auto

lemma IndexOf_lt: "table_inv h t \<Longrightarrow> IndexOf h t key < length (dir t)"
  by (simp add: IndexOf_low table_invD)

lemma split_bucket_eq:
  assumes inv: "table_inv h t" and i: "i < length (dir t)" and b: "b = dir t ! i"
    and ne: "b_list (heap t ! b) \<noteq> []"
  shows "split_bucket h t b =
    t\<lparr>num_buckets := num_buckets t + 1,
      heap := (heap t)[b := (heap t ! b)\<lparr>b_depth := Suc (b_depth (heap t ! b)),
                 b_list := filter (\<lambda>kv. take_bit (Suc (b_depth (heap t ! b))) (h (fst kv)) =
                                      take_bit (b_depth (heap t ! b)) i) (b_list (heap t ! b))\<rparr>]
              @ [\<lparr>b_size = bucket_size t, b_depth = Suc (b_depth (heap t ! b)),
                  b_list = filter (\<lambda>kv. take_bit (Suc (b_depth (heap t ! b))) (h (fst kv)) \<noteq>
                                      take_bit (b_depth (heap t ! b)) i) (b_list (heap t ! b))\<rparr>],
      dir := map (\<lambda>j. if take_bit (b_depth (heap t ! b)) j = take_bit (b_depth (heap t ! b)) i \<and>
                         take_bit (Suc (b_depth (heap t ! b))) j \<noteq> take_bit (b_depth (heap t ! b)) i
                      then length (heap t) else dir t ! j) [0 ..< length (dir t)]\<rparr>"
proof -
  define B where "B = heap t ! b"
  define d where "d = b_depth B"
  define r where "r = take_bit d i"
  have blt: "b < length (heap t)" using slot_invD(1) [OF inv i] b by simp
  have hd_in: "fst (hd (b_list B)) \<in> fst ` set (b_list B)"
    using ne unfolding B_def by (cases "b_list (heap t ! b)") auto
  have ohv: "take_bit d (h (fst (hd (b_list B)))) = r"
    using slot_invD(6) [OF inv i, of "fst (hd (b_list B))"] hd_in
    unfolding B_def d_def r_def b by simp
  have dist: "distinct (map fst (b_list B))"
    using slot_invD(5) [OF inv i] unfolding B_def b by simp
  have len: "length (b_list B) \<le> bucket_size t"
    using slot_invD(4) [OF inv i] unfolding B_def b by simp
  have mv: "move_entries h (2 ^ (d + 1) - 1) r (b_list B) (Bucket (bucket_size t) (d + 1)) =
     (filter (stays h (2 ^ (d + 1) - 1) r) (b_list B),
      (Bucket (bucket_size t) (d + 1))\<lparr>b_list := b_list (Bucket (bucket_size t) (d + 1)) @
          filter (\<lambda>kv. \<not> stays h (2 ^ (d + 1) - 1) r kv) (b_list B)\<rparr>)"
    by (rule move_entries_filter) (use dist len in \<open>auto simp: Bucket_def\<close>)
  have st: "stays h (2 ^ (d + 1) - 1) r = (\<lambda>kv. take_bit (d + 1) (h (fst kv)) = r)"
    unfolding stays_def [abs_def] and_low_mask ..
  have rp: "repoint (2 ^ d - 1) (2 ^ (d + 1) - 1) r (length (heap t)) (dir t) =
      map (\<lambda>j. if take_bit d j = r \<and> take_bit (d + 1) j \<noteq> r
                      then length (heap t) else dir t ! j) [0 ..< length (dir t)]"
    unfolding repoint_def and_low_mask ..
  have "split_bucket h t b = t\<lparr>num_buckets := num_buckets t + 1,
      heap := (heap t)[b := B\<lparr>b_depth := d + 1,
                 b_list := filter (\<lambda>kv. take_bit (d + 1) (h (fst kv)) = r) (b_list B)\<rparr>]
              @ [\<lparr>b_size = bucket_size t, b_depth = d + 1,
                  b_list = filter (\<lambda>kv. take_bit (d + 1) (h (fst kv)) \<noteq> r) (b_list B)\<rparr>],
      dir := map (\<lambda>j. if take_bit d j = r \<and> take_bit (d + 1) j \<noteq> r
                      then length (heap t) else dir t ! j) [0 ..< length (dir t)]\<rparr>"
    unfolding split_bucket_def RedistributeBucket_def Let_def
    using blt
    apply (simp add: IncrementDepth_def B_def [symmetric] d_def [symmetric] and_low_mask ohv mv rp st
        del: One_nat_def power_Suc)
    apply (simp add: Bucket_def)
    done
  then show ?thesis
    unfolding B_def [symmetric] d_def [symmetric] r_def [symmetric] by simp
qed

lemma take_bit_IndexOf:
  "n \<le> global_depth t \<Longrightarrow> take_bit n (IndexOf h t k) = take_bit n (h k)"
  by (simp add: IndexOf_low min_def)

text \<open>The three kinds of slots after a split of the bucket at slot \<open>i\<close>.\<close>

lemma split_slots:
  assumes inv: "table_inv h t" and i: "i < length (dir t)" and j: "j < length (dir t)"
  defines "d \<equiv> b_depth (heap t ! (dir t ! i))"
  shows "dir t ! j = dir t ! i \<Longrightarrow> bit j d \<Longrightarrow>
            take_bit d j = take_bit d i \<and> take_bit (Suc d) j \<noteq> take_bit d i"
    and "dir t ! j = dir t ! i \<Longrightarrow> \<not> bit j d \<Longrightarrow>
            take_bit d j = take_bit d i \<and> take_bit (Suc d) j = take_bit d i"
    and "dir t ! j \<noteq> dir t ! i \<Longrightarrow> take_bit d j \<noteq> take_bit d i"
  using slot_invD(7) [OF inv i j] unfolding d_def [symmetric]
  by (auto simp: low_Suc)

lemma slot_invI:
  assumes "dir t ! i < length (heap t)"
    and "b_depth (heap t ! (dir t ! i)) \<le> global_depth t"
    and "b_size (heap t ! (dir t ! i)) = bucket_size t"
    and "length (b_list (heap t ! (dir t ! i))) \<le> bucket_size t"
    and "distinct (map fst (b_list (heap t ! (dir t ! i))))"
    and "\<And>k. k \<in> fst ` set (b_list (heap t ! (dir t ! i))) \<Longrightarrow>
           take_bit (b_depth (heap t ! (dir t ! i))) (h k) =
           take_bit (b_depth (heap t ! (dir t ! i))) i"
    and "\<And>j. j < length (dir t) \<Longrightarrow>
           (dir t ! j = dir t ! i) =
           (take_bit (b_depth (heap t ! (dir t ! i))) j =
            take_bit (b_depth (heap t ! (dir t ! i))) i)"
  shows "slot_inv h t i"
  unfolding slot_inv_def Let_def using assms by simp

lemma split_bucket_inv_Find:
  assumes inv: "table_inv h t" and i: "i < length (dir t)" and b: "b = dir t ! i"
    and ne: "b_list (heap t ! b) \<noteq> []"
    and lt: "b_depth (heap t ! b) < global_depth t"
  shows "table_inv h (split_bucket h t b)"
    and "Find h (split_bucket h t b) k = Find h t k"
proof -
  define n where "n = length (heap t)"
  define B where "B = heap t ! b"
  define d where "d = b_depth B"
  define r where "r = take_bit d i"
  define Bo where "Bo = B\<lparr>b_depth := Suc d,
     b_list := filter (\<lambda>kv. take_bit (Suc d) (h (fst kv)) = r) (b_list B)\<rparr>"
  define Bn :: "('a, 'b) bucket" where "Bn = \<lparr>b_size = bucket_size t, b_depth = Suc d,
     b_list = filter (\<lambda>kv. take_bit (Suc d) (h (fst kv)) \<noteq> r) (b_list B)\<rparr>"
  define dir' where "dir' = map (\<lambda>j. if take_bit d j = r \<and> take_bit (Suc d) j \<noteq> r
                      then n else dir t ! j) [0 ..< length (dir t)]"
  define t' where "t' = t\<lparr>num_buckets := num_buckets t + 1,
      heap := (heap t)[b := Bo] @ [Bn], dir := dir'\<rparr>"
  have eq: "split_bucket h t b = t'"
    unfolding t'_def Bo_def Bn_def dir'_def r_def d_def B_def n_def
    by (rule split_bucket_eq [OF inv i b ne])
  have blt: "b < n" using slot_invD(1) [OF inv i] b n_def by simp
  have dlt: "Suc d \<le> global_depth t" using lt d_def B_def by simp
  have len': "length dir' = length (dir t)" by (simp add: dir'_def)
  have gd': "global_depth t' = global_depth t" "bucket_size t' = bucket_size t"
    "dir t' = dir'" "heap t' = (heap t)[b := Bo] @ [Bn]"
    by (simp_all add: t'_def)
  have heap_n: "heap t' ! n = Bn" by (simp add: gd' n_def nth_append)
  have heap_b: "heap t' ! b = Bo" using blt by (simp add: gd' n_def nth_append)
  have heap_c: "heap t' ! c = heap t ! c" if "c < n" "c \<noteq> b" for c
    using that by (simp add: gd' n_def nth_append)
  have Bsize: "b_size B = bucket_size t" and Blen: "length (b_list B) \<le> bucket_size t"
    and Bdist: "distinct (map fst (b_list B))"
    using slot_invD(3,4,5) [OF inv i] unfolding B_def b by simp_all
  have Bkeys: "take_bit d (h k) = r" if "k \<in> fst ` set (b_list B)" for k
    using slot_invD(6) [OF inv i, of k] that unfolding B_def b d_def r_def by simp
  have dir'_nth: "dir' ! j = (if dir t ! j = b \<and> bit j d then n else dir t ! j)"
    if "j < length (dir t)" for j
  proof -
    have "(take_bit d j = r \<and> take_bit (Suc d) j \<noteq> r) = (dir t ! j = b \<and> bit j d)"
      using split_slots [OF inv i that] unfolding b [symmetric] B_def [symmetric] d_def [symmetric]
        r_def [symmetric] by (cases "dir t ! j = b"; cases "bit j d") auto
    then show ?thesis using that by (simp add: dir'_def)
  qed
  have dir_lt: "dir t ! j < n" if "j < length (dir t)" for j
    using slot_invD(1) [OF inv that] n_def by simp
  have exact: "(dir t ! j = b) = (take_bit d j = r)" if "j < length (dir t)" for j
    using slot_invD(7) [OF inv i that] unfolding b [symmetric] B_def [symmetric] d_def [symmetric]
        r_def [symmetric] .
  have slot: "slot_inv h t' j" if j: "j < length (dir t)" for j
  proof -
    consider (new) "dir t ! j = b" "bit j d" | (old) "dir t ! j = b" "\<not> bit j d"
      | (other) "dir t ! j \<noteq> b" by blast
    then show ?thesis
    proof cases
      case new
      have dj: "dir' ! j = n" using new dir'_nth [OF j] by simp
      have tj: "take_bit d j = r" using exact [OF j] new by simp
      have keys: "take_bit (Suc d) (h k) = take_bit (Suc d) j"
        if "k \<in> fst ` set (b_list Bn)" for k
      proof -
        from that have kin: "k \<in> fst ` set (b_list B)" and mv: "take_bit (Suc d) (h k) \<noteq> r"
          by (auto simp: Bn_def)
        from mv have "bit (h k) d" using low_Suc_moved [OF Bkeys [OF kin]] by simp
        with Bkeys [OF kin] new(2) show ?thesis using low_Suc_iff [OF tj, of "h k"] by simp
      qed
      have slots: "(dir' ! j' = n) = (take_bit (Suc d) j' = take_bit (Suc d) j)"
        if j': "j' < length (dir t)" for j'
      proof -
        have "(dir' ! j' = n) = (dir t ! j' = b \<and> bit j' d)"
          using dir'_nth [OF j'] dir_lt [OF j'] by auto
        also have "\<dots> = (take_bit d j' = r \<and> bit j' d)" using exact [OF j'] by simp
        also have "\<dots> = (take_bit (Suc d) j' = take_bit (Suc d) j)"
          using new(2) low_Suc_iff [OF tj, of j'] by simp
        finally show ?thesis .
      qed
      have fl: "length (b_list Bn) \<le> bucket_size t"
        using Blen order_trans [OF length_filter_le] by (simp add: Bn_def)
      have D: "dir t' ! j = n" using dj by (simp add: gd'(3))
      have H: "heap t' ! (dir t' ! j) = Bn" unfolding D by (rule heap_n)
      have bd: "b_depth Bn = Suc d" and bs: "b_size Bn = bucket_size t"
        and bdist: "distinct (map fst (b_list Bn))"
        using Bdist by (simp_all add: Bn_def distinct_map_filter)
      show ?thesis
      proof (rule slot_invI)
        show "dir t' ! j < length (heap t')" unfolding D by (simp add: gd'(4) n_def)
        show "b_depth (heap t' ! (dir t' ! j)) \<le> global_depth t'"
          unfolding H bd gd'(1) by (rule dlt)
        show "b_size (heap t' ! (dir t' ! j)) = bucket_size t'" unfolding H bs gd'(2) ..
        show "length (b_list (heap t' ! (dir t' ! j))) \<le> bucket_size t'"
          unfolding H gd'(2) by (rule fl)
        show "distinct (map fst (b_list (heap t' ! (dir t' ! j))))" unfolding H by (rule bdist)
        show "\<And>k. k \<in> fst ` set (b_list (heap t' ! (dir t' ! j))) \<Longrightarrow>
           take_bit (b_depth (heap t' ! (dir t' ! j))) (h k) =
           take_bit (b_depth (heap t' ! (dir t' ! j))) j"
          unfolding H bd by (rule keys)
        show "\<And>j'. j' < length (dir t') \<Longrightarrow>
           (dir t' ! j' = dir t' ! j) =
           (take_bit (b_depth (heap t' ! (dir t' ! j))) j' =
            take_bit (b_depth (heap t' ! (dir t' ! j))) j)"
          unfolding H unfolding bd D unfolding gd'(3) len' by (rule slots)
      qed
    next
      case old
      have dj: "dir' ! j = b" using old dir'_nth [OF j] by simp
      have tj: "take_bit d j = r" using exact [OF j] old by simp
      have keys: "take_bit (Suc d) (h k) = take_bit (Suc d) j"
        if "k \<in> fst ` set (b_list Bo)" for k
      proof -
        from that have kin: "k \<in> fst ` set (b_list B)" and mv: "take_bit (Suc d) (h k) = r"
          by (auto simp: Bo_def)
        from mv have "\<not> bit (h k) d" using low_Suc_moved [OF Bkeys [OF kin]] by simp
        with Bkeys [OF kin] old(2) show ?thesis using low_Suc_iff [OF tj, of "h k"] by simp
      qed
      have slots: "(dir' ! j' = b) = (take_bit (Suc d) j' = take_bit (Suc d) j)"
        if j': "j' < length (dir t)" for j'
      proof -
        have "(dir' ! j' = b) = (dir t ! j' = b \<and> \<not> bit j' d)"
          using dir'_nth [OF j'] blt by auto
        also have "\<dots> = (take_bit d j' = r \<and> \<not> bit j' d)" using exact [OF j'] by simp
        also have "\<dots> = (take_bit (Suc d) j' = take_bit (Suc d) j)"
          using old(2) low_Suc_iff [OF tj, of j'] by simp
        finally show ?thesis .
      qed
      have fl: "length (b_list Bo) \<le> bucket_size t"
        using Blen order_trans [OF length_filter_le] by (simp add: Bo_def)
      have D: "dir t' ! j = b" using dj by (simp add: gd'(3))
      have H: "heap t' ! (dir t' ! j) = Bo" unfolding D by (rule heap_b)
      have bd: "b_depth Bo = Suc d" and bs: "b_size Bo = bucket_size t"
        and bdist: "distinct (map fst (b_list Bo))"
        using Bdist Bsize by (simp_all add: Bo_def distinct_map_filter)
      show ?thesis
      proof (rule slot_invI)
        show "dir t' ! j < length (heap t')" unfolding D using blt by (simp add: gd'(4) n_def)
        show "b_depth (heap t' ! (dir t' ! j)) \<le> global_depth t'"
          unfolding H bd gd'(1) by (rule dlt)
        show "b_size (heap t' ! (dir t' ! j)) = bucket_size t'" unfolding H bs gd'(2) ..
        show "length (b_list (heap t' ! (dir t' ! j))) \<le> bucket_size t'"
          unfolding H gd'(2) by (rule fl)
        show "distinct (map fst (b_list (heap t' ! (dir t' ! j))))" unfolding H by (rule bdist)
        show "\<And>k. k \<in> fst ` set (b_list (heap t' ! (dir t' ! j))) \<Longrightarrow>
           take_bit (b_depth (heap t' ! (dir t' ! j))) (h k) =
           take_bit (b_depth (heap t' ! (dir t' ! j))) j"
          unfolding H bd by (rule keys)
        show "\<And>j'. j' < length (dir t') \<Longrightarrow>
           (dir t' ! j' = dir t' ! j) =
           (take_bit (b_depth (heap t' ! (dir t' ! j))) j' =
            take_bit (b_depth (heap t' ! (dir t' ! j))) j)"
          unfolding H unfolding bd D unfolding gd'(3) len' by (rule slots)
      qed
    next
      case other
      define c where "c = dir t ! j"
      have dj: "dir' ! j = c" using other dir'_nth [OF j] c_def by simp
      have cn: "c < n" "c \<noteq> b" using dir_lt [OF j] other c_def by simp_all
      have slots: "(dir' ! j' = c) = (dir t ! j' = c)" if j': "j' < length (dir t)" for j'
        using dir'_nth [OF j'] cn by auto
      have D: "dir t' ! j = c" using dj by (simp add: gd'(3))
      have H: "heap t' ! (dir t' ! j) = heap t ! c" unfolding D by (rule heap_c [OF cn])
      note old = slot_invD [OF inv j, unfolded c_def [symmetric]]
      show ?thesis
      proof (rule slot_invI)
        show "dir t' ! j < length (heap t')" unfolding D using cn by (simp add: gd'(4) n_def)
        show "b_depth (heap t' ! (dir t' ! j)) \<le> global_depth t'"
          unfolding H gd'(1) by (rule old(2))
        show "b_size (heap t' ! (dir t' ! j)) = bucket_size t'" unfolding H gd'(2) by (rule old(3))
        show "length (b_list (heap t' ! (dir t' ! j))) \<le> bucket_size t'"
          unfolding H gd'(2) by (rule old(4))
        show "distinct (map fst (b_list (heap t' ! (dir t' ! j))))" unfolding H by (rule old(5))
        show "\<And>k. k \<in> fst ` set (b_list (heap t' ! (dir t' ! j))) \<Longrightarrow>
           take_bit (b_depth (heap t' ! (dir t' ! j))) (h k) =
           take_bit (b_depth (heap t' ! (dir t' ! j))) j"
          unfolding H by (rule old(6))
        show "\<And>j'. j' < length (dir t') \<Longrightarrow>
           (dir t' ! j' = dir t' ! j) =
           (take_bit (b_depth (heap t' ! (dir t' ! j))) j' =
            take_bit (b_depth (heap t' ! (dir t' ! j))) j)"
          unfolding H unfolding D unfolding gd'(3) len' using slots old(7) by simp
      qed
    qed
  qed
  have "table_inv h t'"
    unfolding table_inv_def using slot table_invD [OF inv]
    by (simp add: gd' len') (simp add: t'_def)
  then show "table_inv h (split_bucket h t b)" by (simp add: eq)
  show "Find h (split_bucket h t b) k = Find h t k"
  proof -
    define j where "j = IndexOf h t k"
    have j: "j < length (dir t)" unfolding j_def by (rule IndexOf_lt [OF inv])
    have j': "IndexOf h t' k = j" by (simp add: IndexOf_low gd' j_def)
    have tbj: "take_bit (Suc d) j = take_bit (Suc d) (h k)"
      unfolding j_def using dlt by (rule take_bit_IndexOf)
    then have bj: "bit j d = bit (h k) d" using low_Suc_down(2) by blast
    have tbj0: "take_bit d j = take_bit d (h k)" using tbj low_Suc_down(1) by blast
    consider (new) "dir t ! j = b" "bit j d" | (old) "dir t ! j = b" "\<not> bit j d"
      | (other) "dir t ! j \<noteq> b" by blast
    then have "Find h t' k = Find h t k"
    proof cases
      case new
      have dj: "dir' ! j = n" using new dir'_nth [OF j] by simp
      have tj: "take_bit d j = r" using exact [OF j] new by simp
      have "take_bit d (h k) = r" using tj tbj0 by simp
      from low_Suc_moved [OF this] have "take_bit (Suc d) (h k) \<noteq> r" using bj new(2) by simp
      then show ?thesis
        unfolding Find_def Let_def j' j_def [symmetric] gd'(3) dj heap_n new(1)
        using find_entry_filter [of "\<lambda>x. take_bit (Suc d) (h x) \<noteq> r" "b_list B" k]
        by (simp add: Bucket_Find_def Bn_def B_def)
    next
      case old
      have dj: "dir' ! j = b" using old dir'_nth [OF j] by simp
      have tj: "take_bit d j = r" using exact [OF j] old by simp
      have "take_bit d (h k) = r" using tj tbj0 by simp
      from low_Suc_moved [OF this] have "take_bit (Suc d) (h k) = r" using bj old(2) by simp
      then show ?thesis
        unfolding Find_def Let_def j' j_def [symmetric] gd'(3) dj heap_b old(1)
        using find_entry_filter [of "\<lambda>x. take_bit (Suc d) (h x) = r" "b_list B" k]
        by (simp add: Bucket_Find_def Bo_def B_def)
    next
      case other
      have dj: "dir' ! j = dir t ! j" using other dir'_nth [OF j] by simp
      show ?thesis
        unfolding Find_def Let_def j' j_def [symmetric] gd'(3) dj
        using heap_c [OF dir_lt [OF j] other] by simp
    qed
    then show ?thesis by (simp add: eq)
  qed
qed

lemma nth_double:
  assumes "length xs = 2 ^ n" and "j < 2 ^ Suc n"
  shows "(xs @ xs) ! j = xs ! take_bit n j"
proof (cases "j < 2 ^ n")
  case True
  then have "take_bit n j = j" by (simp add: take_bit_nat_eq_self)
  with True assms show ?thesis by (simp add: nth_append)
next
  case False
  then have "j mod 2 ^ n = (j - 2 ^ n) mod 2 ^ n" by (simp add: le_mod_geq)
  also have "\<dots> = j - 2 ^ n" using assms(2) False by simp
  finally have "take_bit n j = j - 2 ^ n" by (simp add: take_bit_eq_mod)
  with False assms show ?thesis by (simp add: nth_append)
qed

lemma grow_dir_inv_Find:
  assumes inv: "table_inv h t"
  shows "table_inv h (grow_dir t)" and "Find h (grow_dir t) k = Find h t k"
proof -
  define g where "g = global_depth t"
  have len: "length (dir t) = 2 ^ g" using table_invD(2) [OF inv] g_def by simp
  have nth: "(dir t @ dir t) ! j = dir t ! take_bit g j" if "j < 2 ^ Suc g" for j
    using nth_double [OF len that] .
  have tl: "take_bit g j < length (dir t)" for j by (simp add: len)
  have slot: "slot_inv h (grow_dir t) j" if j: "j < 2 ^ Suc g" for j
  proof -
    define j0 where "j0 = take_bit g j"
    have j0: "j0 < length (dir t)" unfolding j0_def by (rule tl)
    note old = slot_invD [OF inv j0]
    define d where "d = b_depth (heap t ! (dir t ! j0))"
    have dg: "d \<le> g" using old(2) d_def g_def by simp
    have tb: "take_bit d (take_bit g x) = take_bit d x" for x :: nat
      using dg by (simp add: min_def)
    have tj0: "take_bit d j0 = take_bit d j" unfolding j0_def by (rule tb)
    have k6: "take_bit d (h k) = take_bit d j" if "k \<in> fst ` set (b_list (heap t ! (dir t ! j0)))" for k
      using old(6) [OF that] unfolding d_def [symmetric] tj0 .
    have k7: "(dir t ! take_bit g j' = dir t ! j0) = (take_bit d j' = take_bit d j)" for j'
      using old(7) [OF tl [of j']] unfolding d_def [symmetric] tj0 tb .
    have D: "dir (grow_dir t) ! j = dir t ! j0" using nth [OF j] by (simp add: grow_dir_def j0_def)
    have H: "heap (grow_dir t) = heap t" "bucket_size (grow_dir t) = bucket_size t"
      "global_depth (grow_dir t) = Suc g" "length (dir (grow_dir t)) = 2 ^ Suc g"
      by (simp_all add: grow_dir_def g_def len)
    show ?thesis
    proof (rule slot_invI)
      show "dir (grow_dir t) ! j < length (heap (grow_dir t))" unfolding D H by (rule old(1))
      show "b_depth (heap (grow_dir t) ! (dir (grow_dir t) ! j)) \<le> global_depth (grow_dir t)"
        unfolding D H using old(2) g_def by simp
      show "b_size (heap (grow_dir t) ! (dir (grow_dir t) ! j)) = bucket_size (grow_dir t)"
        unfolding D H by (rule old(3))
      show "length (b_list (heap (grow_dir t) ! (dir (grow_dir t) ! j))) \<le> bucket_size (grow_dir t)"
        unfolding D H by (rule old(4))
      show "distinct (map fst (b_list (heap (grow_dir t) ! (dir (grow_dir t) ! j))))"
        unfolding D H by (rule old(5))
      show "\<And>k. k \<in> fst ` set (b_list (heap (grow_dir t) ! (dir (grow_dir t) ! j))) \<Longrightarrow>
           take_bit (b_depth (heap (grow_dir t) ! (dir (grow_dir t) ! j))) (h k) =
           take_bit (b_depth (heap (grow_dir t) ! (dir (grow_dir t) ! j))) j"
        unfolding D H unfolding d_def [symmetric] by (rule k6)
      show "\<And>j'. j' < length (dir (grow_dir t)) \<Longrightarrow>
           (dir (grow_dir t) ! j' = dir (grow_dir t) ! j) =
           (take_bit (b_depth (heap (grow_dir t) ! (dir (grow_dir t) ! j))) j' =
            take_bit (b_depth (heap (grow_dir t) ! (dir (grow_dir t) ! j))) j)"
      proof -
        fix j' assume "j' < length (dir (grow_dir t))"
        then have j': "j' < 2 ^ Suc g" by (simp add: H)
        have D': "dir (grow_dir t) ! j' = dir t ! take_bit g j'"
          using nth [OF j'] by (simp add: grow_dir_def)
        show "(dir (grow_dir t) ! j' = dir (grow_dir t) ! j) =
           (take_bit (b_depth (heap (grow_dir t) ! (dir (grow_dir t) ! j))) j' =
            take_bit (b_depth (heap (grow_dir t) ! (dir (grow_dir t) ! j))) j)"
          unfolding D D' H(1) unfolding d_def [symmetric] by (rule k7)
      qed
    qed
  qed
  show "table_inv h (grow_dir t)"
    unfolding table_inv_def using slot table_invD [OF inv]
    by (simp add: grow_dir_def len g_def)
  have "IndexOf h (grow_dir t) k < 2 ^ Suc g"
    by (simp add: IndexOf_low grow_dir_def g_def del: power_Suc)
  from nth [OF this] show "Find h (grow_dir t) k = Find h t k"
    by (simp add: Find_def IndexOf_low grow_dir_def g_def min_def)
qed

lemma update_bucket_inv:
  assumes inv: "table_inv h t" and i: "i < length (dir t)" and b: "b = dir t ! i"
    and sz: "b_size B' = bucket_size t" and dp: "b_depth B' = b_depth (heap t ! b)"
    and len: "length (b_list B') \<le> bucket_size t"
    and dist: "distinct (map fst (b_list B'))"
    and keys: "\<And>k. k \<in> fst ` set (b_list B') \<Longrightarrow>
                 take_bit (b_depth B') (h k) = take_bit (b_depth B') i"
  shows "table_inv h (t\<lparr>heap := (heap t)[b := B']\<rparr>)"
proof -
  define t' where "t' = t\<lparr>heap := (heap t)[b := B']\<rparr>"
  have F: "dir t' = dir t" "global_depth t' = global_depth t" "bucket_size t' = bucket_size t"
    "length (heap t') = length (heap t)" "num_buckets t' = num_buckets t"
    by (simp_all add: t'_def)
  have blt: "b < length (heap t)" using slot_invD(1) [OF inv i] b by simp
  have slot: "slot_inv h t' j" if j: "j < length (dir t)" for j
  proof (cases "dir t ! j = b")
    case True
    have H: "heap t' ! (dir t' ! j) = B'" using True blt by (simp add: t'_def)
    note oi = slot_invD [OF inv i, unfolded b [symmetric]]
    have tj: "take_bit (b_depth B') j = take_bit (b_depth B') i"
      using oi(7) [OF j] True dp by simp
    show ?thesis
    proof (rule slot_invI)
      show "dir t' ! j < length (heap t')" unfolding F using slot_invD(1) [OF inv j] .
      show "b_depth (heap t' ! (dir t' ! j)) \<le> global_depth t'"
        unfolding H unfolding F dp by (rule oi(2))
      show "b_size (heap t' ! (dir t' ! j)) = bucket_size t'" unfolding H unfolding F by (rule sz)
      show "length (b_list (heap t' ! (dir t' ! j))) \<le> bucket_size t'"
        unfolding H unfolding F by (rule len)
      show "distinct (map fst (b_list (heap t' ! (dir t' ! j))))" unfolding H by (rule dist)
      show "\<And>k. k \<in> fst ` set (b_list (heap t' ! (dir t' ! j))) \<Longrightarrow>
           take_bit (b_depth (heap t' ! (dir t' ! j))) (h k) =
           take_bit (b_depth (heap t' ! (dir t' ! j))) j"
        unfolding H using keys tj by simp
      show "\<And>j'. j' < length (dir t') \<Longrightarrow>
           (dir t' ! j' = dir t' ! j) =
           (take_bit (b_depth (heap t' ! (dir t' ! j))) j' =
            take_bit (b_depth (heap t' ! (dir t' ! j))) j)"
        unfolding H unfolding F dp using slot_invD(7) [OF inv j] True by simp
    qed
  next
    case False
    have H: "heap t' ! (dir t' ! j) = heap t ! (dir t ! j)" using False by (simp add: t'_def)
    note old = slot_invD [OF inv j]
    show ?thesis
    proof (rule slot_invI)
      show "dir t' ! j < length (heap t')" unfolding F by (rule old(1))
      show "b_depth (heap t' ! (dir t' ! j)) \<le> global_depth t'"
        unfolding H unfolding F by (rule old(2))
      show "b_size (heap t' ! (dir t' ! j)) = bucket_size t'" unfolding H unfolding F by (rule old(3))
      show "length (b_list (heap t' ! (dir t' ! j))) \<le> bucket_size t'"
        unfolding H unfolding F by (rule old(4))
      show "distinct (map fst (b_list (heap t' ! (dir t' ! j))))" unfolding H by (rule old(5))
      show "\<And>k. k \<in> fst ` set (b_list (heap t' ! (dir t' ! j))) \<Longrightarrow>
           take_bit (b_depth (heap t' ! (dir t' ! j))) (h k) =
           take_bit (b_depth (heap t' ! (dir t' ! j))) j"
        unfolding H by (rule old(6))
      show "\<And>j'. j' < length (dir t') \<Longrightarrow>
           (dir t' ! j' = dir t' ! j) =
           (take_bit (b_depth (heap t' ! (dir t' ! j))) j' =
            take_bit (b_depth (heap t' ! (dir t' ! j))) j)"
        unfolding H unfolding F by (rule old(7))
    qed
  qed
  show ?thesis
    unfolding t'_def [symmetric] table_inv_def using slot table_invD [OF inv]
    by (simp add: F)
qed

lemma Find_map_of:
  "Find h t k = map_of (b_list (heap t ! (dir t ! IndexOf h t k))) k"
  by (simp add: Find_def Bucket_Find_def find_entry_map_of)

lemma ExtendibleHashTable_inv: "0 < bsz \<Longrightarrow> table_inv h (ExtendibleHashTable bsz)"
  by (simp add: table_inv_def slot_inv_def ExtendibleHashTable_def Bucket_def)

lemma ExtendibleHashTable_Find: "Find h (ExtendibleHashTable bsz) k = None"
  by (simp add: Find_def IndexOf_low ExtendibleHashTable_def Bucket_def Bucket_Find_def)

lemma Insert_done_inv_Find:
  assumes inv: "table_inv h t"
    and ok: "fst (Bucket_Insert (heap t ! (dir t ! IndexOf h t k)) k v)"
  defines "t' \<equiv> t\<lparr>heap := (heap t)[dir t ! IndexOf h t k :=
                       snd (Bucket_Insert (heap t ! (dir t ! IndexOf h t k)) k v)]\<rparr>"
  shows "table_inv h t'" and "Find h t' k' = (if k' = k then Some v else Find h t k')"
proof -
  define i where "i = IndexOf h t k"
  define b where "b = dir t ! i"
  define B where "B = heap t ! b"
  define B' where "B' = snd (Bucket_Insert B k v)"
  have t': "t' = t\<lparr>heap := (heap t)[b := B']\<rparr>"
    by (simp add: t'_def B'_def B_def b_def i_def)
  have ok': "fst (Bucket_Insert B k v)" using ok by (simp add: B_def b_def i_def)
  have i: "i < length (dir t)" unfolding i_def by (rule IndexOf_lt [OF inv])
  note old = slot_invD [OF inv i, unfolded b_def [symmetric] B_def [symmetric]]
  have dp: "b_depth B' = b_depth B" and sz: "b_size B' = b_size B"
    using Bucket_Insert_fields [of B k v] by (simp_all add: B'_def)
  note ins = Bucket_Insert_ok [OF ok', unfolded B'_def [symmetric]]
  have keys: "take_bit (b_depth B') (h x) = take_bit (b_depth B') i"
    if "x \<in> fst ` set (b_list B')" for x
  proof (cases "x = k")
    case True
    then show ?thesis unfolding dp i_def using take_bit_IndexOf [OF old(2), of h k] by simp
  next
    case False
    with that ins(2) have "x \<in> fst ` set (b_list B)" by simp
    from old(6) [OF this] show ?thesis by (simp add: dp)
  qed
  have "table_inv h (t\<lparr>heap := (heap t)[b := B']\<rparr>)"
  proof (rule update_bucket_inv [OF inv i b_def])
    show "b_size B' = bucket_size t" using sz old(3) by simp
    show "b_depth B' = b_depth (heap t ! b)" using dp by (simp add: B_def)
    show "length (b_list B') \<le> bucket_size t" using ins(4) old(3,4) by simp
    show "distinct (map fst (b_list B'))" using ins(3) old(5) by simp
    show "\<And>x. x \<in> fst ` set (b_list B') \<Longrightarrow>
                 take_bit (b_depth B') (h x) = take_bit (b_depth B') i" by (rule keys)
  qed
  then show "table_inv h t'" by (simp add: t')
  have F: "dir t' = dir t" "IndexOf h t' k' = IndexOf h t k'"
    by (simp_all add: t' IndexOf_low)
  show "Find h t' k' = (if k' = k then Some v else Find h t k')"
  proof (cases "dir t ! IndexOf h t k' = b")
    case True
    then have "heap t' ! (dir t' ! IndexOf h t' k') = B'"
      using old(1) by (simp add: F) (simp add: t')
    moreover have "heap t ! (dir t ! IndexOf h t k') = B" using True by (simp add: B_def)
    ultimately show ?thesis
      unfolding Find_map_of using ins(1) by simp
  next
    case False
    then have "heap t' ! (dir t' ! IndexOf h t' k') = heap t ! (dir t ! IndexOf h t k')"
      by (simp add: F) (simp add: t')
    moreover from False have "k' \<noteq> k" by (auto simp: b_def i_def)
    ultimately show ?thesis unfolding Find_map_of by simp
  qed
qed

lemma Remove_inv_Find:
  assumes inv: "table_inv h t"
  shows "table_inv h (snd (Remove h t k))"
    and "Find h (snd (Remove h t k)) k' = (if k' = k then None else Find h t k')"
    and "fst (Remove h t k) = (Find h t k \<noteq> None)"
proof -
  define i where "i = IndexOf h t k"
  define b where "b = dir t ! i"
  define B where "B = heap t ! b"
  define B' where "B' = snd (Bucket_Remove B k)"
  define t' where "t' = snd (Remove h t k)"
  have t': "t' = t\<lparr>heap := (heap t)[b := B']\<rparr>"
    by (simp add: t'_def Remove_def Let_def B'_def B_def b_def i_def)
  have i: "i < length (dir t)" unfolding i_def by (rule IndexOf_lt [OF inv])
  note old = slot_invD [OF inv i, unfolded b_def [symmetric] B_def [symmetric]]
  have B': "B' = B\<lparr>b_list := snd (erase_entry (b_list B) k)\<rparr>"
    by (simp add: B'_def Bucket_Remove_def)
  have ks: "fst ` set (b_list B') = fst ` set (b_list B) - {k}"
    using erase_entry_keys [OF old(5)] by (simp add: B')
  have mp: "map_of (b_list B') = (map_of (b_list B))(k := None)"
    using erase_entry_map_of [OF old(5)] by (simp add: B')
  have "table_inv h (t\<lparr>heap := (heap t)[b := B']\<rparr>)"
  proof (rule update_bucket_inv [OF inv i b_def])
    show "b_size B' = bucket_size t" using old(3) by (simp add: B')
    show "b_depth B' = b_depth (heap t ! b)" by (simp add: B' B_def)
    show "length (b_list B') \<le> bucket_size t"
      using old(4) erase_entry_length [of "b_list B" k] by (simp add: B')
    show "distinct (map fst (b_list B'))" using erase_entry_distinct [OF old(5)] by (simp add: B')
    show "\<And>x. x \<in> fst ` set (b_list B') \<Longrightarrow>
                 take_bit (b_depth B') (h x) = take_bit (b_depth B') i"
      using old(6) ks by (simp add: B')
  qed
  then show "table_inv h (snd (Remove h t k))" by (simp add: t' [symmetric] t'_def)
  have F: "dir t' = dir t" "IndexOf h t' k' = IndexOf h t k'"
    by (simp_all add: t' IndexOf_low)
  have "Find h t' k' = (if k' = k then None else Find h t k')"
  proof (cases "dir t ! IndexOf h t k' = b")
    case True
    then have "heap t' ! (dir t' ! IndexOf h t' k') = B'"
      using old(1) by (simp add: F) (simp add: t')
    moreover have "heap t ! (dir t ! IndexOf h t k') = B" using True by (simp add: B_def)
    ultimately show ?thesis
      unfolding Find_map_of using mp by simp
  next
    case False
    then have "heap t' ! (dir t' ! IndexOf h t' k') = heap t ! (dir t ! IndexOf h t k')"
      by (simp add: F) (simp add: t')
    moreover from False have "k' \<noteq> k" by (auto simp: b_def i_def)
    ultimately show ?thesis unfolding Find_map_of by simp
  qed
  then show "Find h (snd (Remove h t k)) k' = (if k' = k then None else Find h t k')"
    by (simp add: t'_def)
  have "fst (Remove h t k) = (k \<in> fst ` set (b_list B))"
    by (simp add: Remove_def Let_def Bucket_Remove_def erase_entry_fst B_def b_def i_def)
  also have "\<dots> = (Find h t k \<noteq> None)"
    unfolding Find_map_of by (simp add: map_of_eq_None_iff B_def b_def i_def)
  finally show "fst (Remove h t k) = (Find h t k \<noteq> None)" .
qed

lemma grow_or_split_inv_Find:
  assumes inv: "table_inv h t"
    and fail: "\<not> fst (Bucket_Insert (heap t ! (dir t ! IndexOf h t k)) k v)"
  shows "table_inv h (grow_or_split h t k)"
    and "Find h (grow_or_split h t k) k' = Find h t k'"
proof -
  define i where "i = IndexOf h t k"
  define b where "b = dir t ! i"
  have i: "i < length (dir t)" unfolding i_def by (rule IndexOf_lt [OF inv])
  note old = slot_invD [OF inv i, unfolded b_def [symmetric]]
  from Bucket_Insert_fails [OF fail] have "IsFull (heap t ! b)" by (simp add: b_def i_def)
  with old(3) table_invD(1) [OF inv] have ne: "b_list (heap t ! b) \<noteq> []"
    by (auto simp: IsFull_def)
  show "table_inv h (grow_or_split h t k)"
  proof (cases "b_depth (heap t ! b) = global_depth t")
    case True
    then show ?thesis
      using grow_dir_inv_Find(1) [OF inv]
      by (simp add: grow_or_split_def GetLocalDepthInternal_def GetGlobalDepthInternal_def
          i_def b_def)
  next
    case False
    with old(2) have "b_depth (heap t ! b) < global_depth t" by simp
    from split_bucket_inv_Find(1) [OF inv i b_def ne this] False show ?thesis
      by (simp add: grow_or_split_def GetLocalDepthInternal_def GetGlobalDepthInternal_def
          i_def b_def)
  qed
  show "Find h (grow_or_split h t k) k' = Find h t k'"
  proof (cases "b_depth (heap t ! b) = global_depth t")
    case True
    then show ?thesis
      using grow_dir_inv_Find(2) [OF inv]
      by (simp add: grow_or_split_def GetLocalDepthInternal_def GetGlobalDepthInternal_def
          i_def b_def)
  next
    case False
    with old(2) have "b_depth (heap t ! b) < global_depth t" by simp
    from split_bucket_inv_Find(2) [OF inv i b_def ne this] False show ?thesis
      by (simp add: grow_or_split_def GetLocalDepthInternal_def GetGlobalDepthInternal_def
          i_def b_def)
  qed
qed

lemma Insert_inv_Find_aux:
  assumes "Insert h t k v = Some t'"
  shows "table_inv h t \<longrightarrow>
     table_inv h t' \<and> (\<forall>k'. Find h t' k' = (if k' = k then Some v else Find h t k'))"
  using assms
proof (induction h t k v t' rule: Insert.raw_induct [rotated 1, consumes 1, case_names step])
  case (step Insert h t key val t')
  note 1 = step
  show ?case
  proof
    assume inv: "table_inv h t"
    show "table_inv h t' \<and> (\<forall>k'. Find h t' k' = (if k' = key then Some val else Find h t k'))"
    proof (cases "fst (Bucket_Insert (heap t ! (dir t ! IndexOf h t key)) key val)")
      case True
      with 1(2) have "t' = t\<lparr>heap := (heap t)[dir t ! IndexOf h t key :=
                       snd (Bucket_Insert (heap t ! (dir t ! IndexOf h t key)) key val)]\<rparr>"
        by (simp add: Let_def)
      with Insert_done_inv_Find [OF inv True] show ?thesis by simp
    next
      case False
      with 1(2) have rec: "Insert h (grow_or_split h t key) key val = Some t'"
        by (simp add: Let_def)
      note step = grow_or_split_inv_Find [OF inv False]
      from 1(1) [OF rec] step show ?thesis by simp
    qed
  qed
qed

lemma Insert_inv_Find:
  assumes "Insert h t k v = Some t'" and "table_inv h t"
  shows "table_inv h t'" and "Find h t' k' = (if k' = k then Some v else Find h t k')"
  using Insert_inv_Find_aux [OF assms(1)] assms(2) by simp_all


section \<open>Termination of Insert\<close>











section \<open>Reachable example tables\<close>






section \<open>Claims about the hash table\<close>








section \<open>Properties of the replacer\<close>

lemma info_at_mem:
  "distinct (map fst fi) \<Longrightarrow> (f, i) \<in> set fi \<Longrightarrow> info_at fi f = i"
  by (simp add: info_at_def)

lemma map_of_put: "map_of (info_put fi f i) g = (if g = f then Some i else map_of fi g)"
proof (induction fi)
  case Nil
  then show ?case by simp
next
  case (Cons a fi)
  obtain g' j where a: "a = (g', j)" by (cases a)
  from Cons a show ?case by (cases "g' = f") auto
qed

lemma info_at_put: "info_at (info_put fi f i) g = (if g = f then i else info_at fi g)"
  by (simp add: info_at_def map_of_put)

lemma keys_put: "fst ` set (info_put fi f i) = insert f (fst ` set fi)"
proof (induction fi)
  case Nil
  then show ?case by simp
next
  case (Cons a fi)
  obtain g j where a: "a = (g, j)" by (cases a)
  from Cons a show ?case by (cases "g = f") auto
qed

lemma map_fst_put_mem: "f \<in> fst ` set fi \<Longrightarrow> map fst (info_put fi f i) = map fst fi"
proof (induction fi)
  case Nil
  then show ?case by simp
next
  case (Cons a fi)
  obtain g j where a: "a = (g, j)" by (cases a)
  from Cons a show ?case by (cases "g = f") auto
qed

lemma map_fst_put_new: "f \<notin> fst ` set fi \<Longrightarrow> map fst (info_put fi f i) = map fst fi @ [f]"
proof (induction fi)
  case Nil
  then show ?case by simp
next
  case (Cons a fi)
  obtain g j where a: "a = (g, j)" by (cases a)
  from Cons a show ?case by (cases "g = f") auto
qed

lemma set_put: "set (info_put fi f i) \<subseteq> insert (f, i) (set fi)"
proof (induction fi)
  case Nil
  then show ?case by simp
next
  case (Cons a fi)
  obtain g j where a: "a = (g, j)" by (cases a)
  from Cons a show ?case by (cases "g = f") auto
qed

lemma distinct_put: "distinct (map fst fi) \<Longrightarrow> distinct (map fst (info_put fi f i))"
  by (cases "f \<in> fst ` set fi") (simp_all add: map_fst_put_mem map_fst_put_new)

lemma map_of_erase: "map_of (info_erase fi f) g = (if g = f then None else map_of fi g)"
proof (induction fi)
  case Nil
  then show ?case by (simp add: info_erase_def)
next
  case (Cons a fi)
  obtain g' j where a: "a = (g', j)" by (cases a)
  from Cons a show ?case by (cases "g' = f") (auto simp: info_erase_def)
qed

lemma info_at_erase: "info_at (info_erase fi f) g =
    (if g = f then \<lparr>time_sequence = [], evictable = False\<rparr> else info_at fi g)"
  by (simp add: info_at_def map_of_erase)

lemma keys_erase: "fst ` set (info_erase fi f) = fst ` set fi - {f}"
  by (auto simp: info_erase_def)

lemma distinct_erase: "distinct (map fst fi) \<Longrightarrow> distinct (map fst (info_erase fi f))"
  by (simp add: info_erase_def distinct_map_filter)

text \<open>The comparator is a strict order by group first and front timestamp second.\<close>

lemma evict_cmp_iff:
  assumes "length (time_sequence (info_at fi a)) \<le> k" "length (time_sequence (info_at fi b)) \<le> k"
  shows "evict_cmp k fi a b =
     ((length (time_sequence (info_at fi a)) < k \<and> \<not> length (time_sequence (info_at fi b)) < k) \<or>
      ((length (time_sequence (info_at fi a)) < k) = (length (time_sequence (info_at fi b)) < k) \<and>
       hd (time_sequence (info_at fi a)) < hd (time_sequence (info_at fi b))))"
  using assms unfolding evict_cmp_def by auto

lemma evict_cmp_trans:
  assumes "length (time_sequence (info_at fi a)) \<le> k" "length (time_sequence (info_at fi b)) \<le> k"
    "length (time_sequence (info_at fi c)) \<le> k"
    and "\<not> evict_cmp k fi b a" and "\<not> evict_cmp k fi c b"
  shows "\<not> evict_cmp k fi c a"
  using assms(4,5)
  unfolding evict_cmp_iff [OF assms(2) assms(1)] evict_cmp_iff [OF assms(3) assms(2)]
    evict_cmp_iff [OF assms(3) assms(1)]
  by auto

lemma evict_cmp_strict:
  assumes "length (time_sequence (info_at fi a)) \<le> k" "length (time_sequence (info_at fi b)) \<le> k"
    and "evict_cmp k fi a b"
  shows "\<not> evict_cmp k fi b a"
  using assms(3)
  unfolding evict_cmp_iff [OF assms(1) assms(2)] evict_cmp_iff [OF assms(2) assms(1)]
  by auto

lemma evict_cmp_irrefl: "\<not> evict_cmp k fi a a"
  unfolding evict_cmp_def by auto

lemma evictable_keys_Nil: "evictable_keys [] = {}"
  by (simp add: evictable_keys_def)

lemma evictable_keys_Cons:
  "evictable_keys ((f, i) # xs) = (if evictable i then insert f (evictable_keys xs) else evictable_keys xs)"
  by (auto simp: evictable_keys_def)

lemma evict_loop_spec:
  assumes d: "distinct (map fst fi)"
    and len: "\<And>a. a \<in> fst ` set fi \<Longrightarrow> length (time_sequence (info_at fi a)) \<le> k"
    and nm: "- 1 \<notin> fst ` set fi"
  shows "set xs \<subseteq> set fi \<Longrightarrow> (cur \<noteq> - 1 \<longrightarrow> cur \<in> fst ` set fi) \<Longrightarrow>
     (cur = - 1 \<and> evictable_keys xs = {} \<longrightarrow> evict_loop k fi xs cur = - 1) \<and>
     (cur \<noteq> - 1 \<or> evictable_keys xs \<noteq> {} \<longrightarrow>
        evict_loop k fi xs cur \<noteq> - 1 \<and>
        (evict_loop k fi xs cur = cur \<or> evict_loop k fi xs cur \<in> evictable_keys xs) \<and>
        (cur \<noteq> - 1 \<longrightarrow> \<not> evict_cmp k fi cur (evict_loop k fi xs cur)) \<and>
        (\<forall>f \<in> evictable_keys xs. \<not> evict_cmp k fi f (evict_loop k fi xs cur)))"
proof (induction xs arbitrary: cur)
  case Nil
  then show ?case by (simp add: evictable_keys_Nil evict_cmp_irrefl)
next
  case (Cons kv xs)
  obtain f i where kv: "kv = (f, i)" by (cases kv)
  from Cons.prems(1) kv have fin: "f \<in> fst ` set fi" and sub: "set xs \<subseteq> set fi"
    by (auto simp: rev_image_eqI)
  from fin nm have fne: "f \<noteq> - 1" by blast
  have ek: "evictable_keys xs \<subseteq> fst ` set fi"
    using sub by (auto simp: evictable_keys_def rev_image_eqI)
  show ?case
  proof (cases "evictable i")
    case False
    have step: "evict_loop k fi (kv # xs) cur = evict_loop k fi xs cur"
      and keys: "evictable_keys (kv # xs) = evictable_keys xs"
      using False kv by (simp_all add: evictable_keys_Cons)
    show ?thesis unfolding step keys by (rule Cons.IH [OF sub Cons.prems(2)])
  next
    case True
    define cur' where "cur' = (if cur = - 1 \<or> evict_cmp k fi f cur then f else cur)"
    have step: "evict_loop k fi (kv # xs) cur = evict_loop k fi xs cur'"
      and keys: "evictable_keys (kv # xs) = insert f (evictable_keys xs)"
      using True kv by (simp_all add: evictable_keys_Cons cur'_def)
    have c': "cur' \<noteq> - 1" "cur' \<in> fst ` set fi"
      using fne fin Cons.prems(2) by (auto simp: cur'_def)
    define res where "res = evict_loop k fi xs cur'"
    from Cons.IH [OF sub, of cur'] c' have
      r1: "res \<noteq> - 1" and r2: "res = cur' \<or> res \<in> evictable_keys xs"
      and r3: "\<not> evict_cmp k fi cur' res"
      and r4: "\<forall>g \<in> evictable_keys xs. \<not> evict_cmp k fi g res"
      unfolding res_def by blast+
    have rin: "res \<in> fst ` set fi" using r2 c'(2) ek by auto
    have rf: "\<not> evict_cmp k fi f res"
    proof (cases "cur = - 1 \<or> evict_cmp k fi f cur")
      case True
      then have "cur' = f" by (simp add: cur'_def)
      with r3 show ?thesis by simp
    next
      case False
      then have cc: "cur' = cur" "cur \<in> fst ` set fi" "\<not> evict_cmp k fi f cur"
        using Cons.prems(2) by (simp_all add: cur'_def)
      from evict_cmp_trans [OF len [OF rin] len [OF cc(2)] len [OF fin]] r3 cc
      show ?thesis by simp
    qed
    have rc: "\<not> evict_cmp k fi cur res" if "cur \<noteq> - 1"
    proof (cases "evict_cmp k fi f cur")
      case True
      from that Cons.prems(2) have cin: "cur \<in> fst ` set fi" by simp
      from evict_cmp_strict [OF len [OF fin] len [OF cin] True]
      have "\<not> evict_cmp k fi cur f" .
      from evict_cmp_trans [OF len [OF rin] len [OF fin] len [OF cin] rf this]
      show ?thesis .
    next
      case False
      with that have "cur' = cur" by (simp add: cur'_def)
      with r3 show ?thesis by simp
    qed
    have r2': "res = cur \<or> res \<in> insert f (evictable_keys xs)"
      using r2 by (auto simp: cur'_def split: if_splits)
    show ?thesis
      unfolding step keys res_def [symmetric]
      using r1 r2' rc rf r4 by simp
  qed
qed

lemma replacer_invD:
  assumes "replacer_inv r"
  shows "distinct (map fst (frame_infos r))"
    and "\<not> tracked r (- 1)"
    and "tracked r f \<Longrightarrow> history r f \<noteq> [] \<and> length (history r f) \<le> replacer_k r"
proof -
  from assms show d: "distinct (map fst (frame_infos r))" by (simp add: replacer_inv_def)
  from assms show "\<not> tracked r (- 1)" by (auto simp: replacer_inv_def tracked_def)
  assume "tracked r f"
  then obtain i where i: "(f, i) \<in> set (frame_infos r)" by (auto simp: tracked_def)
  from info_at_mem [OF d i] have "info_at (frame_infos r) f = i" .
  with assms i show "history r f \<noteq> [] \<and> length (history r f) \<le> replacer_k r"
    by (auto simp: replacer_inv_def history_def)
qed

lemma evictable_keys_iff:
  assumes "distinct (map fst (frame_infos r))"
  shows "(f \<in> evictable_keys (frame_infos r)) = (tracked r f \<and> is_evictable r f)"
proof
  assume "f \<in> evictable_keys (frame_infos r)"
  then obtain i where i: "(f, i) \<in> set (frame_infos r)" "evictable i"
    by (auto simp: evictable_keys_def)
  with info_at_mem [OF assms i(1)] show "tracked r f \<and> is_evictable r f"
    by (auto simp: tracked_def is_evictable_def rev_image_eqI)
next
  assume a: "tracked r f \<and> is_evictable r f"
  then obtain i where i: "(f, i) \<in> set (frame_infos r)" by (auto simp: tracked_def)
  with info_at_mem [OF assms i] a show "f \<in> evictable_keys (frame_infos r)"
    by (auto simp: evictable_keys_def is_evictable_def)
qed

lemma not_cmp_chosen:
  assumes "length (history r v) \<le> replacer_k r" "length (history r f) \<le> replacer_k r"
    and "\<not> evict_cmp (replacer_k r) (frame_infos r) f v"
  shows "chosen_over r v f"
  using assms(3) unfolding evict_cmp_iff [OF assms(2,1) [unfolded history_def]]
  unfolding chosen_over_def history_def by auto

lemma Evict_none:
  assumes inv: "replacer_inv r" and none: "\<And>f. tracked r f \<Longrightarrow> \<not> is_evictable r f"
  shows "Evict r = ((False, - 1), r)"
proof -
  note d = replacer_invD(1) [OF inv]
  have e: "evictable_keys (frame_infos r) = {}"
    using evictable_keys_iff [OF d] none by blast
  have len: "\<And>a. a \<in> fst ` set (frame_infos r) \<Longrightarrow>
      length (time_sequence (info_at (frame_infos r) a)) \<le> replacer_k r"
    using replacer_invD(3) [OF inv] by (simp add: tracked_def history_def)
  have nm: "- 1 \<notin> fst ` set (frame_infos r)"
    using replacer_invD(2) [OF inv] by (simp add: tracked_def)
  from evict_loop_spec [OF d len nm subset_refl, of "- 1"] e
  have "evict_loop (replacer_k r) (frame_infos r) (frame_infos r) (- 1) = - 1" by simp
  then show ?thesis by (simp add: Evict_def)
qed

lemma Evict_some:
  assumes inv: "replacer_inv r" and some: "tracked r g" "is_evictable r g"
  shows "\<exists>v. v \<noteq> - 1 \<and> tracked r v \<and> is_evictable r v \<and>
             (\<forall>f. tracked r f \<and> is_evictable r f \<longrightarrow> chosen_over r v f) \<and>
             Evict r = ((True, v), r\<lparr>frame_infos := info_erase (frame_infos r) v,
                                      curr_size := curr_size r - 1\<rparr>)"
proof -
  note d = replacer_invD(1) [OF inv]
  define v where "v = evict_loop (replacer_k r) (frame_infos r) (frame_infos r) (- 1)"
  have e: "evictable_keys (frame_infos r) \<noteq> {}"
    using evictable_keys_iff [OF d, of g] some by blast
  have len: "\<And>a. a \<in> fst ` set (frame_infos r) \<Longrightarrow>
      length (time_sequence (info_at (frame_infos r) a)) \<le> replacer_k r"
    using replacer_invD(3) [OF inv] by (simp add: tracked_def history_def)
  have nm: "- 1 \<notin> fst ` set (frame_infos r)"
    using replacer_invD(2) [OF inv] by (simp add: tracked_def)
  from evict_loop_spec [OF d len nm subset_refl, of "- 1"] e
  have v1: "v \<noteq> - 1" and v2: "v \<in> evictable_keys (frame_infos r)"
    and v3: "\<forall>f \<in> evictable_keys (frame_infos r). \<not> evict_cmp (replacer_k r) (frame_infos r) f v"
    unfolding v_def by auto
  from v2 have tv: "tracked r v" "is_evictable r v" using evictable_keys_iff [OF d] by blast+
  have ch: "chosen_over r v f" if "tracked r f" "is_evictable r f" for f
  proof -
    from that have "f \<in> evictable_keys (frame_infos r)" using evictable_keys_iff [OF d] by blast
    with v3 have "\<not> evict_cmp (replacer_k r) (frame_infos r) f v" by blast
    with replacer_invD(3) [OF inv tv(1)] replacer_invD(3) [OF inv that(1)]
    show ?thesis by (intro not_cmp_chosen) simp_all
  qed
  have "Evict r = ((True, v), r\<lparr>frame_infos := info_erase (frame_infos r) v,
                                      curr_size := curr_size r - 1\<rparr>)"
    using v1 by (simp add: Evict_def v_def [symmetric])
  with v1 tv ch show ?thesis by blast
qed

lemma tracked_erase:
  "tracked (r\<lparr>frame_infos := info_erase (frame_infos r) v, curr_size := c\<rparr>) g =
     (tracked r g \<and> g \<noteq> v)"
  by (auto simp: tracked_def keys_erase)

lemma is_evictable_erase:
  "is_evictable (r\<lparr>frame_infos := info_erase (frame_infos r) v, curr_size := c\<rparr>) g =
     (g \<noteq> v \<and> is_evictable r g)"
  by (simp add: is_evictable_def info_at_erase)

lemma erase_inv:
  assumes "replacer_inv r"
  shows "replacer_inv (r\<lparr>frame_infos := info_erase (frame_infos r) v, curr_size := c\<rparr>)"
  using assms distinct_erase [of "frame_infos r" v]
  by (auto simp: replacer_inv_def info_erase_def)

lemma replacer_inv_k: "replacer_inv r \<Longrightarrow> 0 < replacer_k r"
  by (simp add: replacer_inv_def)

lemma LRUKReplacer_inv: "0 < k \<Longrightarrow> replacer_inv (LRUKReplacer n k)"
  by (simp add: replacer_inv_def LRUKReplacer_def)

lemma LRUKReplacer_tracked: "\<not> tracked (LRUKReplacer n k) f"
  by (simp add: tracked_def LRUKReplacer_def)

text \<open>\<open>RecordAccess\<close>\<close>

lemma RecordAccess_dropped:
  "\<not> tracked r f \<Longrightarrow> replacer_size r = length (frame_infos r) \<Longrightarrow> RecordAccess r f = r"
  by (simp add: RecordAccess_def)

lemma RecordAccess_tracked:
  assumes "tracked r f \<or> replacer_size r \<noteq> length (frame_infos r)"
  shows "tracked (RecordAccess r f) g = (tracked r g \<or> g = f)"
  using assms by (auto simp: RecordAccess_def Let_def tracked_def keys_put)

lemma RecordAccess_is_evictable: "is_evictable (RecordAccess r f) g = is_evictable r g"
  by (simp add: RecordAccess_def Let_def is_evictable_def info_at_put)

lemma RecordAccess_fields:
  "replacer_size (RecordAccess r f) = replacer_size r"
  "replacer_k (RecordAccess r f) = replacer_k r"
  "curr_size (RecordAccess r f) = curr_size r"
  by (simp_all add: RecordAccess_def Let_def)

lemma untracked_info:
  "\<not> tracked r f \<Longrightarrow> info_at (frame_infos r) f = \<lparr>time_sequence = [], evictable = False\<rparr>"
proof -
  assume "\<not> tracked r f"
  then have "map_of (frame_infos r) f = None" by (simp add: tracked_def map_of_eq_None_iff)
  then show ?thesis by (simp add: info_at_def)
qed

lemma RecordAccess_inv:
  assumes inv: "replacer_inv r" and f: "f \<noteq> - 1"
  shows "replacer_inv (RecordAccess r f)"
proof (cases "\<not> tracked r f \<and> replacer_size r = length (frame_infos r)")
  case True
  then show ?thesis using inv by (simp add: RecordAccess_def)
next
  case False
  define i where "i = info_at (frame_infos r) f"
  define q where "q = (if length (time_sequence i) = replacer_k r
                  then tl (time_sequence i) else time_sequence i)"
  define i' where "i' = i\<lparr>time_sequence := q @ [current_timestamp r]\<rparr>"
  have eq: "RecordAccess r f = r\<lparr>frame_infos := info_put (frame_infos r) f i',
               current_timestamp := current_timestamp r + 1\<rparr>"
    using False by (auto simp: RecordAccess_def Let_def i'_def q_def i_def)
  have li: "length (time_sequence i) \<le> replacer_k r"
  proof (cases "tracked r f")
    case True
    from replacer_invD(3) [OF inv True] show ?thesis by (simp add: history_def i_def)
  next
    case False
    from untracked_info [OF False] show ?thesis by (simp add: i_def)
  qed
  have "length (q @ [current_timestamp r]) \<le> replacer_k r"
    using li replacer_inv_k [OF inv] by (auto simp: q_def)
  then have new: "fst (f, i') \<noteq> - 1 \<and> time_sequence (snd (f, i')) \<noteq> [] \<and>
         length (time_sequence (snd (f, i'))) \<le> replacer_k r"
    using f by (simp add: i'_def)
  have "\<forall>kv \<in> set (info_put (frame_infos r) f i').
         fst kv \<noteq> - 1 \<and> time_sequence (snd kv) \<noteq> [] \<and>
         length (time_sequence (snd kv)) \<le> replacer_k r"
  proof
    fix kv assume "kv \<in> set (info_put (frame_infos r) f i')"
    with set_put [of "frame_infos r" f i'] have "kv = (f, i') \<or> kv \<in> set (frame_infos r)"
      by auto
    with new inv show "fst kv \<noteq> - 1 \<and> time_sequence (snd kv) \<noteq> [] \<and>
         length (time_sequence (snd kv)) \<le> replacer_k r"
      by (auto simp: replacer_inv_def)
  qed
  with inv distinct_put [of "frame_infos r" f i'] show ?thesis
    by (simp add: eq replacer_inv_def)
qed

text \<open>\<open>SetEvictable\<close>\<close>

lemma SetEvictable_untracked: "\<not> tracked r f \<Longrightarrow> SetEvictable r f b = r"
  by (simp add: SetEvictable_def)

lemma SetEvictable_frame_infos:
  "tracked r f \<Longrightarrow> frame_infos (SetEvictable r f b) =
     info_put (frame_infos r) f ((info_at (frame_infos r) f)\<lparr>evictable := b\<rparr>)"
  by (simp add: SetEvictable_def Let_def)

lemma SetEvictable_tracked: "tracked (SetEvictable r f b) g = tracked r g"
  by (cases "tracked r f")
    (auto simp: SetEvictable_untracked SetEvictable_frame_infos tracked_def keys_put)

lemma SetEvictable_is_evictable:
  "is_evictable (SetEvictable r f b) g = (if g = f \<and> tracked r f then b else is_evictable r g)"
  by (cases "tracked r f")
    (auto simp: SetEvictable_untracked is_evictable_def SetEvictable_frame_infos info_at_put)

lemma SetEvictable_history: "history (SetEvictable r f b) g = history r g"
  by (cases "tracked r f")
    (auto simp: SetEvictable_untracked history_def SetEvictable_frame_infos info_at_put)

lemma SetEvictable_fields:
  "replacer_size (SetEvictable r f b) = replacer_size r"
  "replacer_k (SetEvictable r f b) = replacer_k r"
  "length (frame_infos (SetEvictable r f b)) = length (frame_infos r)"
proof -
  show "replacer_size (SetEvictable r f b) = replacer_size r"
    "replacer_k (SetEvictable r f b) = replacer_k r"
    by (simp_all add: SetEvictable_def Let_def)
  show "length (frame_infos (SetEvictable r f b)) = length (frame_infos r)"
  proof (cases "tracked r f")
    case True
    then have "map fst (frame_infos (SetEvictable r f b)) = map fst (frame_infos r)"
      by (simp add: SetEvictable_frame_infos map_fst_put_mem tracked_def)
    then have "length (map fst (frame_infos (SetEvictable r f b))) = length (map fst (frame_infos r))"
      by simp
    then show ?thesis by simp
  next
    case False
    then show ?thesis by (simp add: SetEvictable_untracked)
  qed
qed

lemma SetEvictable_Size:
  "Size (SetEvictable r f b) =
     (if tracked r f \<and> \<not> is_evictable r f \<and> b then Size r + 1
      else if tracked r f \<and> is_evictable r f \<and> \<not> b then Size r - 1
      else Size r)"
  by (simp add: SetEvictable_def Let_def Size_def is_evictable_def)

lemma SetEvictable_inv:
  assumes inv: "replacer_inv r"
  shows "replacer_inv (SetEvictable r f b)"
proof (cases "tracked r f")
  case False
  then show ?thesis using inv by (simp add: SetEvictable_untracked)
next
  case True
  define i' where "i' = (info_at (frame_infos r) f)\<lparr>evictable := b\<rparr>"
  from replacer_invD(2) [OF inv] True have f: "f \<noteq> - 1" by auto
  from replacer_invD(3) [OF inv True] have new: "fst (f, i') \<noteq> - 1 \<and>
      time_sequence (snd (f, i')) \<noteq> [] \<and> length (time_sequence (snd (f, i'))) \<le> replacer_k r"
    using f by (simp add: i'_def history_def)
  have "\<forall>kv \<in> set (info_put (frame_infos r) f i').
         fst kv \<noteq> - 1 \<and> time_sequence (snd kv) \<noteq> [] \<and>
         length (time_sequence (snd kv)) \<le> replacer_k r"
  proof
    fix kv assume "kv \<in> set (info_put (frame_infos r) f i')"
    with set_put [of "frame_infos r" f i'] have "kv = (f, i') \<or> kv \<in> set (frame_infos r)"
      by auto
    with new inv show "fst kv \<noteq> - 1 \<and> time_sequence (snd kv) \<noteq> [] \<and>
         length (time_sequence (snd kv)) \<le> replacer_k r"
      by (auto simp: replacer_inv_def)
  qed
  with inv distinct_put [of "frame_infos r" f i'] SetEvictable_frame_infos [OF True, of b]
    SetEvictable_fields(2) [of r f b]
  show ?thesis
    unfolding replacer_inv_def i'_def by simp
qed

text \<open>\<open>Remove\<close>\<close>

lemma Remove_frame_cases:
  "Remove_frame r f =
     (if tracked r f \<and> \<not> is_evictable r f then Inl RemoveNonEvictable
      else if tracked r f
      then Inr (r\<lparr>frame_infos := info_erase (frame_infos r) f, curr_size := curr_size r - 1\<rparr>)
      else Inr r)"
  by (simp add: Remove_frame_def is_evictable_def)

lemma Remove_frame_tracked:
  "Remove_frame r f = Inr r' \<Longrightarrow> tracked r' g = (tracked r g \<and> g \<noteq> f)"
  by (auto simp: Remove_frame_cases tracked_erase split: if_splits)

lemma Remove_frame_is_evictable:
  "Remove_frame r f = Inr r' \<Longrightarrow> g \<noteq> f \<Longrightarrow> is_evictable r' g = is_evictable r g"
  by (auto simp: Remove_frame_cases is_evictable_erase split: if_splits)

lemma Remove_frame_inv:
  "replacer_inv r \<Longrightarrow> Remove_frame r f = Inr r' \<Longrightarrow> replacer_inv r'"
  by (auto simp: Remove_frame_cases erase_inv split: if_splits)

lemma Remove_frame_fields:
  "Remove_frame r f = Inr r' \<Longrightarrow> replacer_size r' = replacer_size r \<and> replacer_k r' = replacer_k r"
  by (auto simp: Remove_frame_cases split: if_splits)

lemma Evict_cases:
  assumes "replacer_inv r"
  shows "(fst (fst (Evict r)) = False \<and> snd (Evict r) = r) \<or>
         (\<exists>v. Evict r = ((True, v), r\<lparr>frame_infos := info_erase (frame_infos r) v,
                                      curr_size := curr_size r - 1\<rparr>) \<and>
              v \<noteq> - 1 \<and> tracked r v \<and> is_evictable r v)"
proof (cases "\<exists>g. tracked r g \<and> is_evictable r g")
  case True
  then obtain g where "tracked r g" "is_evictable r g" by blast
  from Evict_some [OF assms this] show ?thesis by blast
next
  case False
  then have "\<And>f. tracked r f \<Longrightarrow> \<not> is_evictable r f" by blast
  from Evict_none [OF assms this] show ?thesis by simp
qed

lemma Evict_inv: "replacer_inv r \<Longrightarrow> replacer_inv (snd (Evict r))"
  using Evict_cases [of r] erase_inv [of r] by auto

lemma replacer_reachable_inv: "replacer_reachable r \<Longrightarrow> replacer_inv r"
proof (induction rule: replacer_reachable.induct)
  case (replacer_init k n)
  then show ?case by (rule LRUKReplacer_inv)
next
  case (replacer_RecordAccess r f)
  then show ?case by (simp add: RecordAccess_inv)
next
  case (replacer_SetEvictable r f b)
  then show ?case by (simp add: SetEvictable_inv)
next
  case (replacer_Evict r)
  then show ?case by (simp add: Evict_inv)
next
  case (replacer_Remove r f r')
  from Remove_frame_inv [OF replacer_Remove(3) replacer_Remove(2)] show ?case .
qed

section \<open>Claims about the replacer\<close>



text \<open>
  Claim C9, as amended. On a tracked frame that is not evictable, \<open>SetEvictable\<close> with
  \<open>true\<close> adds one to \<open>Size\<close>; on a tracked evictable frame, \<open>SetEvictable\<close> with \<open>false\<close>
  takes one away; when the flag already has the value asked for, \<open>Size\<close> stays; and on
  an untracked frame the state stays. \<open>Size\<close> is a 64-bit counter, and the sums are those
  of the machine.
\<close>

theorem SetEvictable_Size_change:
  "(tracked r F \<and> \<not> is_evictable r F \<longrightarrow> Size (SetEvictable r F True) = Size r + 1) \<and>
   (tracked r F \<and> is_evictable r F \<longrightarrow> Size (SetEvictable r F False) = Size r - 1) \<and>
   (tracked r F \<and> is_evictable r F = b \<longrightarrow> Size (SetEvictable r F b) = Size r) \<and>
   (\<not> tracked r F \<longrightarrow> SetEvictable r F b = r)"
  by (auto simp: SetEvictable_Size SetEvictable_untracked)

theorem SetEvictable_Size_change_witness:
  "tracked replacer_B 1 \<and> \<not> is_evictable replacer_B 1 \<and>
   Size (SetEvictable replacer_B 1 True) = Size replacer_B + 1 \<and>
   tracked replacer_C 1 \<and> is_evictable replacer_C 1 \<and>
   Size (SetEvictable replacer_C 1 False) = Size replacer_C - 1 \<and>
   Size (SetEvictable replacer_C 1 True) = Size replacer_C \<and>
   \<not> tracked replacer_B 2 \<and> SetEvictable replacer_B 2 True = replacer_B"
proof -
  have b: "tracked replacer_B 1" "\<not> is_evictable replacer_B 1" "\<not> tracked replacer_B 2"
    and c: "tracked replacer_C 1" "is_evictable replacer_C 1" by code_simp+
  from SetEvictable_Size_change [of replacer_B 1 True] b
  have 1: "Size (SetEvictable replacer_B 1 True) = Size replacer_B + 1" by blast
  from SetEvictable_Size_change [of replacer_C 1 True] c
  have 2: "Size (SetEvictable replacer_C 1 False) = Size replacer_C - 1"
    and 3: "Size (SetEvictable replacer_C 1 True) = Size replacer_C" by blast+
  from SetEvictable_Size_change [of replacer_B 2 True] b
  have 4: "SetEvictable replacer_B 2 True = replacer_B" by blast
  from b c 1 2 3 4 show ?thesis by blast
qed

text \<open>
  Claim C9 as stated fails: frame 1 is tracked and already evictable in \<open>replacer_C\<close>,
  and \<open>SetEvictable\<close> with \<open>true\<close> leaves \<open>Size\<close> at 1.
\<close>

theorem SetEvictable_twice_same_Size:
  "tracked replacer_C 1 \<and> Size replacer_C = 1 \<and> Size (SetEvictable replacer_C 1 True) = 1"
  by code_simp

section \<open>The invariant of the buffer pool manager\<close>

lemma bpm_invD:
  assumes "bpm_inv h s"
  shows "table_inv h (page_table s)"
    and "replacer_inv (replacer s)"
    and "replacer_size (replacer s) = pool_size s"
    and "length (pages s) = pool_size s"
    and "distinct (free_list s)"
    and "\<And>f. tracked (replacer s) f \<Longrightarrow> 0 \<le> f \<and> f < int (pool_size s)"
    and "\<And>f p. f \<in> set (free_list s) \<Longrightarrow>
           0 \<le> f \<and> f < int (pool_size s) \<and> Find h (page_table s) p \<noteq> Some f"
    and "\<And>p f. Find h (page_table s) p = Some f \<Longrightarrow>
           tracked (replacer s) f \<and> page_id (pages s ! nat f) = p"
    and "\<And>f. tracked (replacer s) f \<Longrightarrow>
           is_evictable (replacer s) f = (pin_count (pages s ! nat f) = 0) \<and>
           0 \<le> pin_count (pages s ! nat f)"
  using assms unfolding bpm_inv_def by blast+

lemma bpm_invI:
  assumes "table_inv h (page_table s)"
    and "replacer_inv (replacer s)"
    and "replacer_size (replacer s) = pool_size s"
    and "length (pages s) = pool_size s"
    and "distinct (free_list s)"
    and "\<And>f. tracked (replacer s) f \<Longrightarrow> 0 \<le> f \<and> f < int (pool_size s)"
    and "\<And>f p. f \<in> set (free_list s) \<Longrightarrow>
           0 \<le> f \<and> f < int (pool_size s) \<and> Find h (page_table s) p \<noteq> Some f"
    and "\<And>p f. Find h (page_table s) p = Some f \<Longrightarrow>
           tracked (replacer s) f \<and> page_id (pages s ! nat f) = p"
    and "\<And>f. tracked (replacer s) f \<Longrightarrow>
           is_evictable (replacer s) f = (pin_count (pages s ! nat f) = 0) \<and>
           0 \<le> pin_count (pages s ! nat f)"
  shows "bpm_inv h s"
  unfolding bpm_inv_def using assms by blast

lemma bpm_inv_cong:
  assumes "pool_size s' = pool_size s" "pages s' = pages s" "page_table s' = page_table s"
    "replacer s' = replacer s" "free_list s' = free_list s"
  shows "bpm_inv h s' = bpm_inv h s"
  unfolding bpm_inv_def assms ..

lemma BufferPoolManagerInstance_inv:
  assumes "0 < k" "0 < bsz"
  shows "bpm_inv h (BufferPoolManagerInstance psize k bsz page_size dsk)"
proof (rule bpm_invI)
  let ?s = "BufferPoolManagerInstance psize k bsz page_size dsk"
  show "table_inv h (page_table ?s)"
    using ExtendibleHashTable_inv [OF assms(2)] by (simp add: BufferPoolManagerInstance_def)
  show "replacer_inv (replacer ?s)"
    using LRUKReplacer_inv [OF assms(1)] by (simp add: BufferPoolManagerInstance_def)
  show "replacer_size (replacer ?s) = pool_size ?s"
    by (simp add: BufferPoolManagerInstance_def LRUKReplacer_def)
  show "length (pages ?s) = pool_size ?s" by (simp add: BufferPoolManagerInstance_def)
  show "distinct (free_list ?s)"
    by (simp add: BufferPoolManagerInstance_def distinct_map)
  show "\<And>f. tracked (replacer ?s) f \<Longrightarrow> 0 \<le> f \<and> f < int (pool_size ?s)"
    by (simp add: BufferPoolManagerInstance_def LRUKReplacer_tracked)
  show "\<And>f p. f \<in> set (free_list ?s) \<Longrightarrow>
           0 \<le> f \<and> f < int (pool_size ?s) \<and> Find h (page_table ?s) p \<noteq> Some f"
    by (auto simp: BufferPoolManagerInstance_def ExtendibleHashTable_Find)
  show "\<And>p f. Find h (page_table ?s) p = Some f \<Longrightarrow>
           tracked (replacer ?s) f \<and> page_id (pages ?s ! nat f) = p"
    by (simp add: BufferPoolManagerInstance_def ExtendibleHashTable_Find)
  show "\<And>f. tracked (replacer ?s) f \<Longrightarrow>
           is_evictable (replacer ?s) f = (pin_count (pages ?s ! nat f) = 0) \<and>
           0 \<le> pin_count (pages ?s ! nat f)"
    by (simp add: BufferPoolManagerInstance_def LRUKReplacer_tracked)
qed

lemma acquire_frame_inv:
  assumes inv: "bpm_inv h s" and acq: "acquire_frame h s = Some (f, s1)"
  shows "bpm_inv h s1" and "0 \<le> f \<and> f < int (pool_size s1)" and "f \<notin> set (free_list s1)"
    and "\<And>p. Find h (page_table s1) p \<noteq> Some f"
    and "pages s1 = pages s" and "pool_size s1 = pool_size s"
proof -
  have "bpm_inv h s1 \<and> (0 \<le> f \<and> f < int (pool_size s1)) \<and> f \<notin> set (free_list s1) \<and>
        (\<forall>p. Find h (page_table s1) p \<noteq> Some f) \<and> pages s1 = pages s \<and>
        pool_size s1 = pool_size s"
  proof (cases "free_list s = []")
    case False
    with acq have f: "f = hd (free_list s)" and s1: "s1 = s\<lparr>free_list := tl (free_list s)\<rparr>"
      by (simp_all add: acquire_frame_def)
    from False f have fin: "f \<in> set (free_list s)" by simp
    from False f bpm_invD(5) [OF inv] have fnot: "f \<notin> set (tl (free_list s))"
      by (cases "free_list s") auto
    have sub: "set (tl (free_list s)) \<subseteq> set (free_list s)"
      by (cases "free_list s") auto
    have "bpm_inv h s1"
    proof (rule bpm_invI)
      show "table_inv h (page_table s1)" using bpm_invD(1) [OF inv] by (simp add: s1)
      show "replacer_inv (replacer s1)" using bpm_invD(2) [OF inv] by (simp add: s1)
      show "replacer_size (replacer s1) = pool_size s1" using bpm_invD(3) [OF inv] by (simp add: s1)
      show "length (pages s1) = pool_size s1" using bpm_invD(4) [OF inv] by (simp add: s1)
      show "distinct (free_list s1)" using bpm_invD(5) [OF inv] by (simp add: s1 distinct_tl)
      show "\<And>f. tracked (replacer s1) f \<Longrightarrow> 0 \<le> f \<and> f < int (pool_size s1)"
        using bpm_invD(6) [OF inv] by (simp add: s1)
      show "\<And>f p. f \<in> set (free_list s1) \<Longrightarrow>
           0 \<le> f \<and> f < int (pool_size s1) \<and> Find h (page_table s1) p \<noteq> Some f"
        using bpm_invD(7) [OF inv] sub by (auto simp: s1)
      show "\<And>p f. Find h (page_table s1) p = Some f \<Longrightarrow>
           tracked (replacer s1) f \<and> page_id (pages s1 ! nat f) = p"
        using bpm_invD(8) [OF inv] by (simp add: s1)
      show "\<And>f. tracked (replacer s1) f \<Longrightarrow>
           is_evictable (replacer s1) f = (pin_count (pages s1 ! nat f) = 0) \<and>
           0 \<le> pin_count (pages s1 ! nat f)"
        using bpm_invD(9) [OF inv] by (simp add: s1)
    qed
    with bpm_invD(7) [OF inv fin] fnot show ?thesis by (simp add: s1)
  next
    case True
    define r where "r = replacer s"
    from True acq have ev: "fst (fst (Evict r))"
      by (auto simp: acquire_frame_def Let_def r_def split: if_splits)
    with Evict_cases [OF bpm_invD(2) [OF inv], folded r_def] obtain v where
      E: "Evict r = ((True, v), r\<lparr>frame_infos := info_erase (frame_infos r) v,
                                      curr_size := curr_size r - 1\<rparr>)"
      and v: "v \<noteq> - 1" "tracked r v" "is_evictable r v" by auto
    define r' where "r' = r\<lparr>frame_infos := info_erase (frame_infos r) v,
                                      curr_size := curr_size r - 1\<rparr>"
    define q where "q = page_id (pages s ! nat v)"
    define pt' where "pt' = snd (Remove h (page_table s) q)"
    from True acq E have fv: "f = v"
      and F: "pool_size s1 = pool_size s" "pages s1 = pages s" "replacer s1 = r'"
        "free_list s1 = []" "page_table s1 = pt'"
      by (auto simp: acquire_frame_def Let_def r_def [symmetric] r'_def q_def pt'_def
          WritePage_def split: if_splits)
    note tinv = bpm_invD(1) [OF inv]
    have find': "Find h pt' p = (if p = q then None else Find h (page_table s) p)" for p
      unfolding pt'_def by (rule Remove_inv_Find(2) [OF tinv])
    have tr': "tracked r' g = (tracked r g \<and> g \<noteq> v)" for g
      unfolding r'_def by (rule tracked_erase)
    have ev': "is_evictable r' g = (g \<noteq> v \<and> is_evictable r g)" for g
      unfolding r'_def by (rule is_evictable_erase)
    have unb: "Find h pt' p \<noteq> Some v" for p
    proof
      assume a: "Find h pt' p = Some v"
      then have "p \<noteq> q" and "Find h (page_table s) p = Some v"
        by (auto simp: find' split: if_splits)
      with bpm_invD(8) [OF inv this(2)] show False by (simp add: q_def)
    qed
    have "bpm_inv h s1"
    proof (rule bpm_invI)
      show "table_inv h (page_table s1)"
        unfolding F pt'_def by (rule Remove_inv_Find(1) [OF tinv])
      show "replacer_inv (replacer s1)"
        unfolding F r'_def using erase_inv [OF bpm_invD(2) [OF inv]] by (simp add: r_def)
      show "replacer_size (replacer s1) = pool_size s1"
        unfolding F using bpm_invD(3) [OF inv] by (simp add: r'_def r_def)
      show "length (pages s1) = pool_size s1" unfolding F by (rule bpm_invD(4) [OF inv])
      show "distinct (free_list s1)" unfolding F by simp
      show "\<And>f. tracked (replacer s1) f \<Longrightarrow> 0 \<le> f \<and> f < int (pool_size s1)"
        unfolding F tr' using bpm_invD(6) [OF inv] by (simp add: r_def)
      show "\<And>f p. f \<in> set (free_list s1) \<Longrightarrow>
           0 \<le> f \<and> f < int (pool_size s1) \<and> Find h (page_table s1) p \<noteq> Some f"
        unfolding F by simp
      show "\<And>p f. Find h (page_table s1) p = Some f \<Longrightarrow>
           tracked (replacer s1) f \<and> page_id (pages s1 ! nat f) = p"
      proof -
        fix p g assume a: "Find h (page_table s1) p = Some g"
        then have o: "Find h (page_table s) p = Some g"
          by (auto simp: F find' split: if_splits)
        from a unb [of p] have "g \<noteq> v" by (auto simp: F)
        with bpm_invD(8) [OF inv o]
        show "tracked (replacer s1) g \<and> page_id (pages s1 ! nat g) = p"
          by (simp add: F tr' r_def)
      qed
      show "\<And>f. tracked (replacer s1) f \<Longrightarrow>
           is_evictable (replacer s1) f = (pin_count (pages s1 ! nat f) = 0) \<and>
           0 \<le> pin_count (pages s1 ! nat f)"
        unfolding F tr' ev' using bpm_invD(9) [OF inv] by (simp add: r_def)
    qed
    with bpm_invD(6) [OF inv, of v] v(2) unb show ?thesis
      by (simp add: F fv r_def)
  qed
  then show "bpm_inv h s1" and "0 \<le> f \<and> f < int (pool_size s1)" and "f \<notin> set (free_list s1)"
    and "\<And>p. Find h (page_table s1) p \<noteq> Some f"
    and "pages s1 = pages s" and "pool_size s1 = pool_size s" by blast+
qed

lemma nat_eq_frames: "0 \<le> f \<Longrightarrow> 0 \<le> g \<Longrightarrow> (nat g = nat f) = (g = f)"
  by auto

lemma RecordAccess_in_pool:
  assumes inv: "replacer_inv r" and sz: "replacer_size r = n"
    and rng: "\<And>g. tracked r g \<Longrightarrow> 0 \<le> g \<and> g < int n"
    and f: "0 \<le> f" "f < int n"
  shows "tracked r f \<or> replacer_size r \<noteq> length (frame_infos r)"
proof (cases "tracked r f")
  case True
  then show ?thesis by simp
next
  case False
  have "x \<in> {0 ..< int n} - {f}" if "x \<in> fst ` set (frame_infos r)" for x
    using rng [of x] False that by (auto simp: tracked_def)
  then have "fst ` set (frame_infos r) \<subseteq> {0 ..< int n} - {f}" by blast
  then have "card (fst ` set (frame_infos r)) \<le> card ({0 ..< int n} - {f})"
    by (intro card_mono) simp_all
  also have "\<dots> < n" using f by (simp add: card_Diff_singleton_if)
  finally have "card (set (map fst (frame_infos r))) < n" by simp
  with distinct_card [OF replacer_invD(1) [OF inv]] have "length (frame_infos r) < n" by simp
  with sz show ?thesis by simp
qed

text \<open>Binding a page to an acquired frame, as \<open>NewPgImp\<close> and \<open>FetchPgImp\<close> do.\<close>

lemma install_inv:
  assumes inv: "bpm_inv h s1" and f: "0 \<le> f" "f < int (pool_size s1)"
    and nf: "f \<notin> set (free_list s1)" and unb: "\<And>p. Find h (page_table s1) p \<noteq> Some f"
    and ins: "Insert h (page_table s1) pid f = Some pt"
    and pg: "page_id pg = pid" "pin_count pg = 1"
    and F: "pool_size s' = pool_size s1" "pages s' = (pages s1)[nat f := pg]"
      "page_table s' = pt" "free_list s' = free_list s1"
      "replacer s' = SetEvictable (RecordAccess (replacer s1) f) f False"
  shows "bpm_inv h s'"
proof (rule bpm_invI)
  define r where "r = replacer s1"
  note tinv = bpm_invD(1) [OF inv]
  note rinv = bpm_invD(2) [OF inv, folded r_def]
  have find': "Find h pt p = (if p = pid then Some f else Find h (page_table s1) p)" for p
    by (rule Insert_inv_Find(2) [OF ins tinv])
  have fne: "f \<noteq> - 1" using f by simp
  have nd: "tracked r f \<or> replacer_size r \<noteq> length (frame_infos r)"
    using RecordAccess_in_pool [OF rinv _ _ f] bpm_invD(3,6) [OF inv] by (simp add: r_def)
  have tr': "tracked (replacer s') g = (tracked r g \<or> g = f)" for g
    unfolding F r_def [symmetric] by (simp add: SetEvictable_tracked RecordAccess_tracked [OF nd])
  have ev': "is_evictable (replacer s') g = (if g = f then False else is_evictable r g)" for g
    unfolding F r_def [symmetric]
    by (simp add: SetEvictable_is_evictable RecordAccess_is_evictable RecordAccess_tracked [OF nd])
  have flen: "nat f < length (pages s1)" using f bpm_invD(4) [OF inv] by (simp add: nat_less_iff)
  have pg': "pages s' ! nat g = (if g = f then pg else pages s1 ! nat g)" if "0 \<le> g" for g
    unfolding F using flen nat_eq_frames [OF f(1) that] by (auto simp: nth_list_update)
  show "table_inv h (page_table s')" unfolding F by (rule Insert_inv_Find(1) [OF ins tinv])
  show "replacer_inv (replacer s')"
    unfolding F r_def [symmetric] by (intro SetEvictable_inv RecordAccess_inv rinv fne)
  show "replacer_size (replacer s') = pool_size s'"
    unfolding F using bpm_invD(3) [OF inv] by (simp add: SetEvictable_fields RecordAccess_fields)
  show "length (pages s') = pool_size s'" unfolding F using bpm_invD(4) [OF inv] by simp
  show "distinct (free_list s')" unfolding F by (rule bpm_invD(5) [OF inv])
  show "\<And>g. tracked (replacer s') g \<Longrightarrow> 0 \<le> g \<and> g < int (pool_size s')"
    unfolding tr' F(1) using bpm_invD(6) [OF inv] f by (auto simp: r_def)
  show "\<And>g p. g \<in> set (free_list s') \<Longrightarrow>
           0 \<le> g \<and> g < int (pool_size s') \<and> Find h (page_table s') p \<noteq> Some g"
    unfolding F find' using bpm_invD(7) [OF inv] nf by auto
  show "\<And>p g. Find h (page_table s') p = Some g \<Longrightarrow>
           tracked (replacer s') g \<and> page_id (pages s' ! nat g) = p"
  proof -
    fix p g assume a: "Find h (page_table s') p = Some g"
    show "tracked (replacer s') g \<and> page_id (pages s' ! nat g) = p"
    proof (cases "p = pid")
      case True
      with a have "g = f" by (simp add: F find')
      with True pg f show ?thesis by (simp add: tr' pg')
    next
      case False
      with a have o: "Find h (page_table s1) p = Some g" by (simp add: F find')
      with unb have gf: "g \<noteq> f" by auto
      from bpm_invD(8) [OF inv o] bpm_invD(6) [OF inv, of g] gf
      show ?thesis by (simp add: tr' pg' r_def)
    qed
  qed
  show "\<And>g. tracked (replacer s') g \<Longrightarrow>
           is_evictable (replacer s') g = (pin_count (pages s' ! nat g) = 0) \<and>
           0 \<le> pin_count (pages s' ! nat g)"
  proof -
    fix g assume a: "tracked (replacer s') g"
    show "is_evictable (replacer s') g = (pin_count (pages s' ! nat g) = 0) \<and>
           0 \<le> pin_count (pages s' ! nat g)"
    proof (cases "g = f")
      case True
      with pg f show ?thesis by (simp add: ev' pg')
    next
      case False
      with a have t: "tracked (replacer s1) g" by (simp add: tr' r_def)
      from bpm_invD(9) [OF inv t] bpm_invD(6) [OF inv t] False
      show ?thesis by (simp add: ev' pg' r_def)
    qed
  qed
qed

lemma NewPgImp_inv:
  assumes inv: "bpm_inv h s" and new: "NewPgImp h s = Inr (res, s')"
  shows "bpm_inv h s'"
proof (cases "acquire_frame h s")
  case None
  with new have "s' = s" by (simp add: NewPgImp_def)
  with inv show ?thesis by simp
next
  case (Some a)
  obtain f s1 where a: "a = (f, s1)" by (cases a)
  note acq = acquire_frame_inv [OF inv Some [unfolded a]]
  from new Some a obtain pt where
    ins: "Insert h (page_table s1) (next_page_id s1) f = Some pt"
    by (auto simp: NewPgImp_def Let_def split: option.splits)
  define pg where "pg = (ResetMemory (pages s1 ! nat f))
                              \<lparr>page_id := next_page_id s1, pin_count := 1, is_dirty := False\<rparr>"
  from new Some a ins have F: "pool_size s' = pool_size s1" "pages s' = (pages s1)[nat f := pg]"
      "page_table s' = pt" "free_list s' = free_list s1"
      "replacer s' = SetEvictable (RecordAccess (replacer s1) f) f False"
    by (auto simp: NewPgImp_def Let_def pg_def)
  show ?thesis
    by (rule install_inv [OF acq(1) _ _ acq(3) acq(4) ins _ _ F])
      (use acq(2) in \<open>simp_all add: pg_def\<close>)
qed

lemma FetchPgImp_inv:
  assumes inv: "bpm_inv h s" and fetch: "FetchPgImp h s pid = Inr (res, s')"
  shows "bpm_inv h s'"
proof (cases "Find h (page_table s) pid")
  case (Some f)
  define r where "r = replacer s"
  from fetch have pidv: "pid \<noteq> INVALID_PAGE_ID" by (auto simp: FetchPgImp_def split: if_splits)
  note b = bpm_invD(8) [OF inv Some]
  then have tf: "tracked r f" by (simp add: r_def)
  note rng = bpm_invD(6) [OF inv, of f, folded r_def, OF tf]
  define pg where "pg = (pages s ! nat f)\<lparr>pin_count := pin_count (pages s ! nat f) + 1\<rparr>"
  from fetch Some pidv have F: "pool_size s' = pool_size s" "pages s' = (pages s)[nat f := pg]"
      "page_table s' = page_table s" "free_list s' = free_list s"
      "replacer s' = SetEvictable (RecordAccess r f) f False"
    by (auto simp: FetchPgImp_def Let_def pg_def r_def)
  note rinv = bpm_invD(2) [OF inv, folded r_def]
  have fne: "f \<noteq> - 1" using rng by auto
  have tr': "tracked (replacer s') g = tracked r g" for g
    unfolding F using tf by (auto simp: SetEvictable_tracked RecordAccess_tracked)
  have ev': "is_evictable (replacer s') g = (if g = f then False else is_evictable r g)" for g
    unfolding F using tf
    by (simp add: SetEvictable_is_evictable RecordAccess_is_evictable RecordAccess_tracked)
  have flen: "nat f < length (pages s)" using rng bpm_invD(4) [OF inv] by (simp add: nat_less_iff)
  have pg': "pages s' ! nat g = (if g = f then pg else pages s ! nat g)" if "0 \<le> g" for g
    unfolding F using flen nat_eq_frames [of f g] rng that by (auto simp: nth_list_update)
  show ?thesis
  proof (rule bpm_invI)
    show "table_inv h (page_table s')" unfolding F by (rule bpm_invD(1) [OF inv])
    show "replacer_inv (replacer s')"
      unfolding F by (intro SetEvictable_inv RecordAccess_inv rinv fne)
    show "replacer_size (replacer s') = pool_size s'"
      unfolding F using bpm_invD(3) [OF inv]
      by (simp add: SetEvictable_fields RecordAccess_fields r_def)
    show "length (pages s') = pool_size s'" unfolding F using bpm_invD(4) [OF inv] by simp
    show "distinct (free_list s')" unfolding F by (rule bpm_invD(5) [OF inv])
    show "\<And>g. tracked (replacer s') g \<Longrightarrow> 0 \<le> g \<and> g < int (pool_size s')"
      unfolding tr' F(1) using bpm_invD(6) [OF inv] by (simp add: r_def)
    show "\<And>g p. g \<in> set (free_list s') \<Longrightarrow>
           0 \<le> g \<and> g < int (pool_size s') \<and> Find h (page_table s') p \<noteq> Some g"
      unfolding F by (rule bpm_invD(7) [OF inv])
    show "\<And>p g. Find h (page_table s') p = Some g \<Longrightarrow>
           tracked (replacer s') g \<and> page_id (pages s' ! nat g) = p"
    proof -
      fix p g assume "Find h (page_table s') p = Some g"
      then have o: "Find h (page_table s) p = Some g" by (simp add: F)
      from bpm_invD(8) [OF inv o] have t: "tracked r g" and pid: "page_id (pages s ! nat g) = p"
        by (simp_all add: r_def)
      from bpm_invD(6) [OF inv, of g] t have "0 \<le> g" by (simp add: r_def)
      with t pid show "tracked (replacer s') g \<and> page_id (pages s' ! nat g) = p"
        by (auto simp: tr' pg' pg_def)
    qed
    show "\<And>g. tracked (replacer s') g \<Longrightarrow>
           is_evictable (replacer s') g = (pin_count (pages s' ! nat g) = 0) \<and>
           0 \<le> pin_count (pages s' ! nat g)"
    proof -
      fix g assume "tracked (replacer s') g"
      then have t: "tracked (replacer s) g" by (simp add: tr' r_def)
      from bpm_invD(9) [OF inv t] bpm_invD(6) [OF inv t]
      show "is_evictable (replacer s') g = (pin_count (pages s' ! nat g) = 0) \<and>
           0 \<le> pin_count (pages s' ! nat g)"
        by (auto simp: ev' pg' pg_def r_def)
    qed
  qed
next
  case None
  from fetch have pidv: "pid \<noteq> INVALID_PAGE_ID" by (auto simp: FetchPgImp_def split: if_splits)
  show ?thesis
  proof (cases "acquire_frame h s")
    case N: None
    with fetch None pidv have "s' = s" by (simp add: FetchPgImp_def)
    with inv show ?thesis by simp
  next
    case (Some a)
    obtain f s1 where a: "a = (f, s1)" by (cases a)
    note acq = acquire_frame_inv [OF inv Some [unfolded a]]
    from fetch None pidv Some a obtain pt where
      ins: "Insert h (page_table s1) pid f = Some pt"
      by (auto simp: FetchPgImp_def Let_def split: option.splits)
    define s2 where "s2 = s1\<lparr>page_table := pt, trace := trace s1 @ [TableInsert pid f]\<rparr>"
    define pg where "pg = (ResetMemory (pages s2 ! nat f))
                              \<lparr>page_id := pid, pin_count := 1, is_dirty := False, data := disk s2 pid\<rparr>"
    from fetch None pidv Some a ins
    have F: "pool_size s' = pool_size s1" "pages s' = (pages s1)[nat f := pg]"
      "page_table s' = pt" "free_list s' = free_list s1"
      "replacer s' = SetEvictable (RecordAccess (replacer s1) f) f False"
      by (auto simp: FetchPgImp_def Let_def pg_def s2_def)
    show ?thesis
      by (rule install_inv [OF acq(1) _ _ acq(3) acq(4) ins _ _ F])
        (use acq(2) in \<open>simp_all add: pg_def\<close>)
  qed
qed

lemma bpm_inv_pages_cong:
  assumes "pool_size s' = pool_size s" "page_table s' = page_table s"
    "replacer s' = replacer s" "free_list s' = free_list s"
    "length (pages s') = length (pages s)"
    "\<And>i. page_id (pages s' ! i) = page_id (pages s ! i)"
    "\<And>i. pin_count (pages s' ! i) = pin_count (pages s ! i)"
  shows "bpm_inv h s' = bpm_inv h s"
  unfolding bpm_inv_def assms ..

lemma clear_first_dirty_fields:
  "pool_size (clear_first_dirty s) = pool_size s"
  "page_table (clear_first_dirty s) = page_table s"
  "replacer (clear_first_dirty s) = replacer s"
  "free_list (clear_first_dirty s) = free_list s"
  "trace (clear_first_dirty s) = trace s"
  "disk (clear_first_dirty s) = disk s"
  "next_page_id (clear_first_dirty s) = next_page_id s"
  "length (pages (clear_first_dirty s)) = length (pages s)"
  "page_id (pages (clear_first_dirty s) ! i) = page_id (pages s ! i)"
  "pin_count (pages (clear_first_dirty s) ! i) = pin_count (pages s ! i)"
  "data (pages (clear_first_dirty s) ! i) = data (pages s ! i)"
  by (cases "pages s"; cases i; simp add: clear_first_dirty_def)+

lemma WritePage_fields:
  "pool_size (WritePage s p d) = pool_size s"
  "page_table (WritePage s p d) = page_table s"
  "replacer (WritePage s p d) = replacer s"
  "free_list (WritePage s p d) = free_list s"
  "pages (WritePage s p d) = pages s"
  "next_page_id (WritePage s p d) = next_page_id s"
  "trace (WritePage s p d) = trace s @ [DiskWrite p d]"
  "disk (WritePage s p d) = (disk s)(p := d)"
  by (simp_all add: WritePage_def)

lemma clear_first_dirty_inv: "bpm_inv h (clear_first_dirty s) = bpm_inv h s"
  by (rule bpm_inv_pages_cong) (simp_all add: clear_first_dirty_fields)

lemma WritePage_inv: "bpm_inv h (WritePage s p d) = bpm_inv h s"
  by (rule bpm_inv_cong) (simp_all add: WritePage_fields)

lemma FlushPgImp_inv: "bpm_inv h s \<Longrightarrow> bpm_inv h (snd (FlushPgImp h s pid))"
  by (simp add: FlushPgImp_def Let_def clear_first_dirty_inv WritePage_inv split: option.splits)

lemma flush_frames_inv: "bpm_inv h s \<Longrightarrow> bpm_inv h (flush_frames h s fs)"
proof (induction fs arbitrary: s)
  case Nil
  then show ?case by simp
next
  case (Cons f fs)
  show ?case
    by (simp split: option.splits)
      (intro conjI impI allI Cons.IH; simp add: Cons.prems clear_first_dirty_inv WritePage_inv)
qed

lemma FlushAllPgsImp_inv: "bpm_inv h s \<Longrightarrow> bpm_inv h (FlushAllPgsImp h s)"
  by (simp add: FlushAllPgsImp_def flush_frames_inv)

lemma UnpinPgImp_inv:
  assumes inv: "bpm_inv h s"
  shows "bpm_inv h (snd (UnpinPgImp h s pid dirty))"
proof (cases "Find h (page_table s) pid")
  case None
  with inv show ?thesis by (simp add: UnpinPgImp_def)
next
  case (Some f)
  show ?thesis
  proof (cases "pin_count (pages s ! nat f) = 0")
    case True
    with Some inv show ?thesis by (simp add: UnpinPgImp_def)
  next
    case False
    define r where "r = replacer s"
    define pg where "pg = (pages s ! nat f)\<lparr>pin_count := pin_count (pages s ! nat f) - 1,
         is_dirty := (is_dirty (pages s ! nat f) \<or> dirty)\<rparr>"
    define s' where "s' = snd (UnpinPgImp h s pid dirty)"
    note b = bpm_invD(8) [OF inv Some]
    then have tf: "tracked r f" by (simp add: r_def)
    note rng = bpm_invD(6) [OF inv, of f, folded r_def, OF tf]
    from Some False have F: "pool_size s' = pool_size s" "pages s' = (pages s)[nat f := pg]"
      "page_table s' = page_table s" "free_list s' = free_list s"
      "replacer s' = (if pin_count pg = 0 then SetEvictable r f True else r)"
      by (auto simp: UnpinPgImp_def Let_def pg_def r_def s'_def)
    note rinv = bpm_invD(2) [OF inv, folded r_def]
    have tr': "tracked (replacer s') g = tracked r g" for g
      unfolding F by (simp add: SetEvictable_tracked)
    have ev': "is_evictable (replacer s') g =
        (if g = f \<and> pin_count pg = 0 then True else is_evictable r g)" for g
      unfolding F using tf by (simp add: SetEvictable_is_evictable)
    have flen: "nat f < length (pages s)" using rng bpm_invD(4) [OF inv] by (simp add: nat_less_iff)
    have pg': "pages s' ! nat g = (if g = f then pg else pages s ! nat g)" if "0 \<le> g" for g
      unfolding F using flen nat_eq_frames [of f g] rng that by (auto simp: nth_list_update)
    have "bpm_inv h s'"
    proof (rule bpm_invI)
      show "table_inv h (page_table s')" unfolding F by (rule bpm_invD(1) [OF inv])
      show "replacer_inv (replacer s')"
        unfolding F using rinv by (simp add: SetEvictable_inv)
      show "replacer_size (replacer s') = pool_size s'"
        unfolding F using bpm_invD(3) [OF inv] by (simp add: SetEvictable_fields r_def)
      show "length (pages s') = pool_size s'" unfolding F using bpm_invD(4) [OF inv] by simp
      show "distinct (free_list s')" unfolding F by (rule bpm_invD(5) [OF inv])
      show "\<And>g. tracked (replacer s') g \<Longrightarrow> 0 \<le> g \<and> g < int (pool_size s')"
        unfolding tr' F(1) using bpm_invD(6) [OF inv] by (simp add: r_def)
      show "\<And>g p. g \<in> set (free_list s') \<Longrightarrow>
           0 \<le> g \<and> g < int (pool_size s') \<and> Find h (page_table s') p \<noteq> Some g"
        unfolding F by (rule bpm_invD(7) [OF inv])
      show "\<And>p g. Find h (page_table s') p = Some g \<Longrightarrow>
           tracked (replacer s') g \<and> page_id (pages s' ! nat g) = p"
      proof -
        fix p g assume "Find h (page_table s') p = Some g"
        then have o: "Find h (page_table s) p = Some g" by (simp add: F)
        from bpm_invD(8) [OF inv o] have t: "tracked r g" and pid: "page_id (pages s ! nat g) = p"
          by (simp_all add: r_def)
        from bpm_invD(6) [OF inv, of g] t have "0 \<le> g" by (simp add: r_def)
        with t pid show "tracked (replacer s') g \<and> page_id (pages s' ! nat g) = p"
          by (auto simp: tr' pg' pg_def)
      qed
      show "\<And>g. tracked (replacer s') g \<Longrightarrow>
           is_evictable (replacer s') g = (pin_count (pages s' ! nat g) = 0) \<and>
           0 \<le> pin_count (pages s' ! nat g)"
      proof -
        fix g assume "tracked (replacer s') g"
        then have t: "tracked (replacer s) g" by (simp add: tr' r_def)
        from bpm_invD(9) [OF inv t] bpm_invD(6) [OF inv t] False
        show "is_evictable (replacer s') g = (pin_count (pages s' ! nat g) = 0) \<and>
           0 \<le> pin_count (pages s' ! nat g)"
          by (auto simp: ev' pg' pg_def r_def)
      qed
    qed
    then show ?thesis by (simp add: s'_def)
  qed
qed

text \<open>\<open>DeletePgImp\<close> in a state of the invariant: the replacer's \<open>Remove\<close> does not throw.\<close>

lemma DeletePgImp_cases:
  fixes pid :: int and s :: bpm
  assumes inv: "bpm_inv h s"
  defines "s0 \<equiv> s\<lparr>trace := trace s @ [Deallocate pid]\<rparr>"
  shows "Find h (page_table s) pid = None \<Longrightarrow> DeletePgImp h s pid = Inr (True, s0)"
    and "Find h (page_table s) pid = Some f \<Longrightarrow> 0 < pin_count (pages s ! nat f) \<Longrightarrow>
           DeletePgImp h s pid = Inr (False, s0)"
    and "Find h (page_table s) pid = Some f \<Longrightarrow> \<not> 0 < pin_count (pages s ! nat f) \<Longrightarrow>
           pin_count (pages s ! nat f) = 0 \<and> tracked (replacer s) f \<and>
           is_evictable (replacer s) f \<and> page_id (pages s ! nat f) = pid \<and>
           DeletePgImp h s pid =
             Inr (True,
                  (if is_dirty (pages s ! nat f)
                   then clear_first_dirty (WritePage s0 pid (data (pages s ! nat f)))
                   else s0)
                  \<lparr>replacer := (replacer s)\<lparr>frame_infos := info_erase (frame_infos (replacer s)) f,
                                           curr_size := curr_size (replacer s) - 1\<rparr>,
                   free_list := free_list s @ [f],
                   page_table := snd (Remove h (page_table s) pid),
                   trace := trace s @ [Deallocate pid] @
                      (if is_dirty (pages s ! nat f)
                       then [DiskWrite pid (data (pages s ! nat f))] else []) @
                      [TableRemove pid]\<rparr>)"
proof -
  show "Find h (page_table s) pid = None \<Longrightarrow> DeletePgImp h s pid = Inr (True, s0)"
    by (simp add: DeletePgImp_def Let_def s0_def)
  show "Find h (page_table s) pid = Some f \<Longrightarrow> 0 < pin_count (pages s ! nat f) \<Longrightarrow>
           DeletePgImp h s pid = Inr (False, s0)"
    by (simp add: DeletePgImp_def Let_def s0_def)
  assume b: "Find h (page_table s) pid = Some f" and np: "\<not> 0 < pin_count (pages s ! nat f)"
  note bd = bpm_invD(8) [OF inv b]
  then have t: "tracked (replacer s) f" and pid: "page_id (pages s ! nat f) = pid" by simp_all
  from bpm_invD(9) [OF inv t] np have pin: "pin_count (pages s ! nat f) = 0"
    and ev: "is_evictable (replacer s) f" by auto
  have rm: "Remove_frame (replacer s) f =
      Inr ((replacer s)\<lparr>frame_infos := info_erase (frame_infos (replacer s)) f,
                                           curr_size := curr_size (replacer s) - 1\<rparr>)"
    using t ev by (simp add: Remove_frame_cases)
  have "DeletePgImp h s pid =
             Inr (True,
                  (if is_dirty (pages s ! nat f)
                   then clear_first_dirty (WritePage s0 pid (data (pages s ! nat f)))
                   else s0)
                  \<lparr>replacer := (replacer s)\<lparr>frame_infos := info_erase (frame_infos (replacer s)) f,
                                           curr_size := curr_size (replacer s) - 1\<rparr>,
                   free_list := free_list s @ [f],
                   page_table := snd (Remove h (page_table s) pid),
                   trace := trace s @ [Deallocate pid] @
                      (if is_dirty (pages s ! nat f)
                       then [DiskWrite pid (data (pages s ! nat f))] else []) @
                      [TableRemove pid]\<rparr>)"
    using b np pid rm
    by (simp add: DeletePgImp_def Let_def s0_def clear_first_dirty_fields WritePage_fields)
  with pin t ev pid show "pin_count (pages s ! nat f) = 0 \<and> tracked (replacer s) f \<and>
           is_evictable (replacer s) f \<and> page_id (pages s ! nat f) = pid \<and>
           DeletePgImp h s pid =
             Inr (True,
                  (if is_dirty (pages s ! nat f)
                   then clear_first_dirty (WritePage s0 pid (data (pages s ! nat f)))
                   else s0)
                  \<lparr>replacer := (replacer s)\<lparr>frame_infos := info_erase (frame_infos (replacer s)) f,
                                           curr_size := curr_size (replacer s) - 1\<rparr>,
                   free_list := free_list s @ [f],
                   page_table := snd (Remove h (page_table s) pid),
                   trace := trace s @ [Deallocate pid] @
                      (if is_dirty (pages s ! nat f)
                       then [DiskWrite pid (data (pages s ! nat f))] else []) @
                      [TableRemove pid]\<rparr>)"
    by blast
qed

lemma DeletePgImp_inv:
  assumes inv: "bpm_inv h s" and del: "DeletePgImp h s pid = Inr (b, s')"
  shows "bpm_inv h s'"
proof -
  define s0 where "s0 = s\<lparr>trace := trace s @ [Deallocate pid]\<rparr>"
  have inv0: "bpm_inv h s0"
    using inv bpm_inv_cong [of s0 s h] by (simp add: s0_def)
  show ?thesis
  proof (cases "Find h (page_table s) pid")
    case None
    from DeletePgImp_cases(1) [OF inv None] del inv0 show ?thesis by (simp add: s0_def)
  next
    case (Some f)
    show ?thesis
    proof (cases "0 < pin_count (pages s ! nat f)")
      case True
      from DeletePgImp_cases(2) [OF inv Some True] del inv0 show ?thesis by (simp add: s0_def)
    next
      case False
      define r where "r = replacer s"
      define r' where "r' = r\<lparr>frame_infos := info_erase (frame_infos r) f,
                                           curr_size := curr_size r - 1\<rparr>"
      define pt' where "pt' = snd (Remove h (page_table s) pid)"
      note c = DeletePgImp_cases(3) [OF inv Some False, folded s0_def r_def]
      from c have tf: "tracked r f" and pidf: "page_id (pages s ! nat f) = pid" by simp_all
      from c del have F: "pool_size s' = pool_size s" "page_table s' = pt'"
        "replacer s' = r'" "free_list s' = free_list s @ [f]"
        "length (pages s') = length (pages s)"
        "\<And>i. page_id (pages s' ! i) = page_id (pages s ! i)"
        "\<And>i. pin_count (pages s' ! i) = pin_count (pages s ! i)"
        by (auto simp: r'_def pt'_def s0_def clear_first_dirty_fields WritePage_fields)
      note tinv = bpm_invD(1) [OF inv]
      have find': "Find h pt' p = (if p = pid then None else Find h (page_table s) p)" for p
        unfolding pt'_def by (rule Remove_inv_Find(2) [OF tinv])
      have tr': "tracked r' g = (tracked r g \<and> g \<noteq> f)" for g
        unfolding r'_def by (rule tracked_erase)
      have ev': "is_evictable r' g = (g \<noteq> f \<and> is_evictable r g)" for g
        unfolding r'_def by (rule is_evictable_erase)
      have unb: "Find h pt' p \<noteq> Some f" for p
      proof
        assume "Find h pt' p = Some f"
        then have "p \<noteq> pid" and "Find h (page_table s) p = Some f"
          by (auto simp: find' split: if_splits)
        with bpm_invD(8) [OF inv this(2)] pidf show False by simp
      qed
      have fnot: "f \<notin> set (free_list s)"
        using bpm_invD(7) [OF inv, of f pid] Some by auto
      show ?thesis
      proof (rule bpm_invI)
        show "table_inv h (page_table s')"
          unfolding F pt'_def by (rule Remove_inv_Find(1) [OF tinv])
        show "replacer_inv (replacer s')"
          unfolding F r'_def using erase_inv [OF bpm_invD(2) [OF inv]] by (simp add: r_def)
        show "replacer_size (replacer s') = pool_size s'"
          unfolding F using bpm_invD(3) [OF inv] by (simp add: r'_def r_def)
        show "length (pages s') = pool_size s'" unfolding F by (rule bpm_invD(4) [OF inv])
        show "distinct (free_list s')" unfolding F using bpm_invD(5) [OF inv] fnot by simp
        show "\<And>g. tracked (replacer s') g \<Longrightarrow> 0 \<le> g \<and> g < int (pool_size s')"
          unfolding F tr' using bpm_invD(6) [OF inv] by (simp add: r_def)
        show "\<And>g p. g \<in> set (free_list s') \<Longrightarrow>
           0 \<le> g \<and> g < int (pool_size s') \<and> Find h (page_table s') p \<noteq> Some g"
        proof -
          fix g p assume "g \<in> set (free_list s')"
          then consider "g \<in> set (free_list s)" | "g = f" by (auto simp: F)
          then show "0 \<le> g \<and> g < int (pool_size s') \<and> Find h (page_table s') p \<noteq> Some g"
          proof cases
            case 1
            from bpm_invD(7) [OF inv 1, of p] show ?thesis by (auto simp: F find')
          next
            case 2
            with bpm_invD(6) [OF inv, of f] tf unb [of p] show ?thesis by (simp add: F r_def)
          qed
        qed
        show "\<And>p g. Find h (page_table s') p = Some g \<Longrightarrow>
           tracked (replacer s') g \<and> page_id (pages s' ! nat g) = p"
        proof -
          fix p g assume a: "Find h (page_table s') p = Some g"
          then have o: "Find h (page_table s) p = Some g"
            by (auto simp: F find' split: if_splits)
          from a unb [of p] have "g \<noteq> f" by (auto simp: F)
          with bpm_invD(8) [OF inv o]
          show "tracked (replacer s') g \<and> page_id (pages s' ! nat g) = p"
            by (simp add: F tr' r_def)
        qed
        show "\<And>g. tracked (replacer s') g \<Longrightarrow>
           is_evictable (replacer s') g = (pin_count (pages s' ! nat g) = 0) \<and>
           0 \<le> pin_count (pages s' ! nat g)"
          unfolding F tr' ev' using bpm_invD(9) [OF inv] by (simp add: r_def)
      qed
    qed
  qed
qed

lemma bpm_reachable_inv: "bpm_reachable h s \<Longrightarrow> bpm_inv h s"
proof (induction rule: bpm_reachable.induct)
  case (bpm_init k bsz psize page_size dsk)
  then show ?case by (rule BufferPoolManagerInstance_inv)
next
  case (bpm_NewPg s res s')
  from NewPgImp_inv [OF bpm_NewPg(3) bpm_NewPg(2)] show ?case .
next
  case (bpm_FetchPg s pid fres s')
  from FetchPgImp_inv [OF bpm_FetchPg(3) bpm_FetchPg(2)] show ?case .
next
  case (bpm_UnpinPg s pid dirty)
  then show ?case by (simp add: UnpinPgImp_inv)
next
  case (bpm_FlushPg s pid)
  then show ?case by (simp add: FlushPgImp_inv)
next
  case (bpm_FlushAllPgs s)
  then show ?case by (simp add: FlushAllPgsImp_inv)
next
  case (bpm_DeletePg s pid b s')
  from DeletePgImp_inv [OF bpm_DeletePg(3) bpm_DeletePg(2)] show ?case .
qed

section \<open>Reachable example states of the manager\<close>

lemma run_reachable: "bpm_reachable h s \<Longrightarrow> run h s ops = Some s' \<Longrightarrow> bpm_reachable h s'"
proof (induction ops arbitrary: s)
  case Nil
  then show ?case by simp
next
  case (Cons a ops)
  show ?case
  proof (cases a)
    case NewPg
    with Cons.prems(2) obtain rs where 1: "NewPgImp h s = Inr rs" and 2: "run h (snd rs) ops = Some s'"
      by (auto split: sum.splits)
    from 1 have "NewPgImp h s = Inr (fst rs, snd rs)" by simp
    from Cons.IH [OF bpm_NewPg [OF Cons.prems(1) this] 2] show ?thesis .
  next
    case (FetchPg p)
    with Cons.prems(2) obtain rs where 1: "FetchPgImp h s p = Inr rs" and 2: "run h (snd rs) ops = Some s'"
      by (auto split: sum.splits)
    from 1 have "FetchPgImp h s p = Inr (fst rs, snd rs)" by simp
    from Cons.IH [OF bpm_FetchPg [OF Cons.prems(1) this] 2] show ?thesis .
  next
    case (UnpinPg p d)
    with Cons.prems(2) have 2: "run h (snd (UnpinPgImp h s p d)) ops = Some s'" by simp
    from Cons.IH [OF bpm_UnpinPg [OF Cons.prems(1)] 2] show ?thesis .
  next
    case (FlushPg p)
    with Cons.prems(2) have 2: "run h (snd (FlushPgImp h s p)) ops = Some s'" by simp
    from Cons.IH [OF bpm_FlushPg [OF Cons.prems(1)] 2] show ?thesis .
  next
    case FlushAllPgs
    with Cons.prems(2) have 2: "run h (FlushAllPgsImp h s) ops = Some s'" by simp
    from Cons.IH [OF bpm_FlushAllPgs [OF Cons.prems(1)] 2] show ?thesis .
  next
    case (DeletePg p)
    with Cons.prems(2) obtain rs where 1: "DeletePgImp h s p = Inr rs" and 2: "run h (snd rs) ops = Some s'"
      by (auto split: sum.splits)
    from 1 have "DeletePgImp h s p = Inr (fst rs, snd rs)" by simp
    from Cons.IH [OF bpm_DeletePg [OF Cons.prems(1) this] 2] show ?thesis .
  qed
qed

lemma bpm0_reachable: "bpm_reachable hash_int bpm0"
  unfolding bpm0_def by (rule bpm_init) simp_all

lemma after_reachable:
  assumes "(case run hash_int bpm0 ops of Some s \<Rightarrow> True | None \<Rightarrow> False)"
  shows "bpm_reachable hash_int (after ops)"
proof -
  from assms obtain s where s: "run hash_int bpm0 ops = Some s" by (auto split: option.splits)
  then have "after ops = s" by (simp add: after_def)
  with run_reachable [OF bpm0_reachable s] show ?thesis by simp
qed

lemma run_A: "(case run hash_int bpm0 [NewPg, NewPg, UnpinPg 0 True]
                 of Some s \<Rightarrow> True | None \<Rightarrow> False)"
  by code_simp

lemma run_B: "(case run hash_int bpm0 [NewPg, NewPg, UnpinPg 0 True, UnpinPg 1 True]
                 of Some s \<Rightarrow> True | None \<Rightarrow> False)"
  by code_simp

lemma run_D: "(case run hash_int bpm0 [NewPg, NewPg]
                 of Some s \<Rightarrow> True | None \<Rightarrow> False)"
  by code_simp

lemma run_E: "(case run hash_int bpm0 [NewPg] of Some s \<Rightarrow> True | None \<Rightarrow> False)"
  by code_simp

section \<open>Claims about the buffer pool manager\<close>

text \<open>
  Claim C10. In every state reached through the public operations, a frame bound in
  the page table whose pin count is zero is tracked and evictable in the replacer; so
  the replacer's \<open>Remove\<close> accepts it, and \<open>DeletePgImp\<close> never ends in an error.
\<close>

theorem unpinned_resident_frame_evictable:
  assumes "bpm_reachable h s"
  shows "(\<forall>p f. Find h (page_table s) p = Some f \<and> pin_count (pages s ! nat f) = 0 \<longrightarrow>
            tracked (replacer s) f \<and> is_evictable (replacer s) f \<and>
            Remove_frame (replacer s) f \<noteq> Inl RemoveNonEvictable) \<and>
         (\<forall>p e. DeletePgImp h s p \<noteq> Inl e)"
proof -
  note inv = bpm_reachable_inv [OF assms]
  have a: "tracked (replacer s) f \<and> is_evictable (replacer s) f \<and>
            Remove_frame (replacer s) f \<noteq> Inl RemoveNonEvictable"
    if "Find h (page_table s) p = Some f" "pin_count (pages s ! nat f) = 0" for p f
  proof -
    from bpm_invD(8) [OF inv that(1)] have t: "tracked (replacer s) f" by simp
    from bpm_invD(9) [OF inv t] that(2) have "is_evictable (replacer s) f" by simp
    with t show ?thesis by (simp add: Remove_frame_cases)
  qed
  have b: "DeletePgImp h s p \<noteq> Inl e" for p e
  proof (cases "Find h (page_table s) p")
    case None
    from DeletePgImp_cases(1) [OF inv None] show ?thesis by simp
  next
    case (Some f)
    show ?thesis
    proof (cases "0 < pin_count (pages s ! nat f)")
      case True
      from DeletePgImp_cases(2) [OF inv Some True] show ?thesis by simp
    next
      case False
      from DeletePgImp_cases(3) [OF inv Some False] show ?thesis by simp
    qed
  qed
  from a b show ?thesis by blast
qed

theorem unpinned_resident_frame_evictable_witness:
  "bpm_reachable hash_int (after [NewPg, NewPg, UnpinPg 0 True]) \<and>
   Find hash_int (page_table (after [NewPg, NewPg, UnpinPg 0 True])) 0 = Some 0 \<and>
   pin_count (pages (after [NewPg, NewPg, UnpinPg 0 True]) ! nat 0) = 0 \<and>
   tracked (replacer (after [NewPg, NewPg, UnpinPg 0 True])) 0 \<and>
   is_evictable (replacer (after [NewPg, NewPg, UnpinPg 0 True])) 0 \<and>
   DeletePgImp hash_int (after [NewPg, NewPg, UnpinPg 0 True]) 0 \<noteq> Inl RemoveNonEvictable"
proof -
  have f: "Find hash_int (page_table (after [NewPg, NewPg, UnpinPg 0 True])) 0 = Some 0"
    and p: "pin_count (pages (after [NewPg, NewPg, UnpinPg 0 True]) ! nat 0) = 0"
    by code_simp+
  from unpinned_resident_frame_evictable [OF after_reachable [OF run_A]] f p
    after_reachable [OF run_A]
  show ?thesis by blast
qed

text \<open>
  Claim C6. In every reachable state, \<open>UnpinPgImp\<close> returns false exactly when the page
  is not resident or the pin count of its frame is zero, and then the state is
  unchanged; otherwise it returns true, the pin count of the frame is one less, the
  dirty flag is the old flag or the caller's bit, the replacer is changed only by
  \<open>SetEvictable(frame, true)\<close> and only when the pin count has reached zero, and
  afterwards the frame is evictable exactly when its pin count is zero.
\<close>

theorem UnpinPgImp_result:
  assumes "bpm_reachable h s"
  shows "(\<not> fst (UnpinPgImp h s P d)) =
           (Find h (page_table s) P = None \<or>
            (\<exists>f. Find h (page_table s) P = Some f \<and> pin_count (pages s ! nat f) = 0)) \<and>
         (\<not> fst (UnpinPgImp h s P d) \<longrightarrow> snd (UnpinPgImp h s P d) = s) \<and>
         (\<forall>f. Find h (page_table s) P = Some f \<and> pin_count (pages s ! nat f) \<noteq> 0 \<longrightarrow>
            fst (UnpinPgImp h s P d) \<and>
            pin_count (pages (snd (UnpinPgImp h s P d)) ! nat f) = pin_count (pages s ! nat f) - 1 \<and>
            is_dirty (pages (snd (UnpinPgImp h s P d)) ! nat f) = (is_dirty (pages s ! nat f) \<or> d) \<and>
            replacer (snd (UnpinPgImp h s P d)) =
              (if pin_count (pages s ! nat f) - 1 = 0
               then SetEvictable (replacer s) f True else replacer s) \<and>
            is_evictable (replacer (snd (UnpinPgImp h s P d))) f =
              (pin_count (pages s ! nat f) - 1 = 0))"
proof -
  note inv = bpm_reachable_inv [OF assms]
  define s' where "s' = snd (UnpinPgImp h s P d)"
  have a: "(\<not> fst (UnpinPgImp h s P d)) =
           (Find h (page_table s) P = None \<or>
            (\<exists>f. Find h (page_table s) P = Some f \<and> pin_count (pages s ! nat f) = 0))"
    by (auto simp: UnpinPgImp_def Let_def split: option.splits)
  have b: "snd (UnpinPgImp h s P d) = s" if "\<not> fst (UnpinPgImp h s P d)"
    using that by (auto simp: UnpinPgImp_def Let_def split: option.splits if_splits)
  have c: "fst (UnpinPgImp h s P d) \<and>
            pin_count (pages s' ! nat f) = pin_count (pages s ! nat f) - 1 \<and>
            is_dirty (pages s' ! nat f) = (is_dirty (pages s ! nat f) \<or> d) \<and>
            replacer s' =
              (if pin_count (pages s ! nat f) - 1 = 0
               then SetEvictable (replacer s) f True else replacer s) \<and>
            is_evictable (replacer s') f = (pin_count (pages s ! nat f) - 1 = 0)"
    if f: "Find h (page_table s) P = Some f" and np: "pin_count (pages s ! nat f) \<noteq> 0" for f
  proof -
    from bpm_invD(8) [OF inv f] have t: "tracked (replacer s) f" by simp
    from bpm_invD(6) [OF inv t] bpm_invD(4) [OF inv] have flen: "nat f < length (pages s)"
      by (simp add: nat_less_iff)
    have 1: "fst (UnpinPgImp h s P d)" using f np by (simp add: UnpinPgImp_def Let_def)
    have 2: "pages s' = (pages s)[nat f := (pages s ! nat f)\<lparr>pin_count := pin_count (pages s ! nat f) - 1,
         is_dirty := (is_dirty (pages s ! nat f) \<or> d)\<rparr>]"
      and 3: "replacer s' = (if pin_count (pages s ! nat f) - 1 = 0
               then SetEvictable (replacer s) f True else replacer s)"
      and 4: "page_table s' = page_table s"
      using f np by (auto simp: UnpinPgImp_def Let_def s'_def)
    from 2 flen have 5: "pin_count (pages s' ! nat f) = pin_count (pages s ! nat f) - 1"
      and 6: "is_dirty (pages s' ! nat f) = (is_dirty (pages s ! nat f) \<or> d)" by simp_all
    have inv': "bpm_inv h s'" unfolding s'_def by (rule UnpinPgImp_inv [OF inv])
    from f 4 have "Find h (page_table s') P = Some f" by simp
    from bpm_invD(8) [OF inv' this] have "tracked (replacer s') f" by simp
    from bpm_invD(9) [OF inv' this] 5
    have 7: "is_evictable (replacer s') f = (pin_count (pages s ! nat f) - 1 = 0)" by simp
    from 1 3 5 6 7 show ?thesis by blast
  qed
  from a b c show ?thesis unfolding s'_def by blast
qed

theorem UnpinPgImp_result_witness:
  "bpm_reachable hash_int (after [NewPg, NewPg]) \<and>
   Find hash_int (page_table (after [NewPg, NewPg])) 1 = Some 1 \<and>
   pin_count (pages (after [NewPg, NewPg]) ! nat 1) = 1 \<and>
   fst (UnpinPgImp hash_int (after [NewPg, NewPg]) 1 True) \<and>
   pin_count (pages (snd (UnpinPgImp hash_int (after [NewPg, NewPg]) 1 True)) ! nat 1) = 1 - 1 \<and>
   is_dirty (pages (snd (UnpinPgImp hash_int (after [NewPg, NewPg]) 1 True)) ! nat 1) \<and>
   is_evictable (replacer (snd (UnpinPgImp hash_int (after [NewPg, NewPg]) 1 True))) 1 \<and>
   Find hash_int (page_table (after [NewPg, NewPg])) 7 = None \<and>
   \<not> fst (UnpinPgImp hash_int (after [NewPg, NewPg]) 7 True) \<and>
   snd (UnpinPgImp hash_int (after [NewPg, NewPg]) 7 True) = after [NewPg, NewPg]"
proof -
  have f: "Find hash_int (page_table (after [NewPg, NewPg])) 1 = Some 1"
    and p: "pin_count (pages (after [NewPg, NewPg]) ! nat 1) = 1"
    and n: "Find hash_int (page_table (after [NewPg, NewPg])) 7 = None"
    by code_simp+
  note r = after_reachable [OF run_D]
  from p have p0: "pin_count (pages (after [NewPg, NewPg]) ! nat 1) \<noteq> 0" by simp
  from UnpinPgImp_result [OF r, of 1 True] f p0
  have u: "fst (UnpinPgImp hash_int (after [NewPg, NewPg]) 1 True)"
    "pin_count (pages (snd (UnpinPgImp hash_int (after [NewPg, NewPg]) 1 True)) ! nat 1) =
       pin_count (pages (after [NewPg, NewPg]) ! nat 1) - 1"
    "is_dirty (pages (snd (UnpinPgImp hash_int (after [NewPg, NewPg]) 1 True)) ! nat 1) =
       (is_dirty (pages (after [NewPg, NewPg]) ! nat 1) \<or> True)"
    "is_evictable (replacer (snd (UnpinPgImp hash_int (after [NewPg, NewPg]) 1 True))) 1 =
       (pin_count (pages (after [NewPg, NewPg]) ! nat 1) - 1 = 0)"
    by blast+
  have 1: "fst (UnpinPgImp hash_int (after [NewPg, NewPg]) 1 True) \<and>
   pin_count (pages (snd (UnpinPgImp hash_int (after [NewPg, NewPg]) 1 True)) ! nat 1) = 1 - 1 \<and>
   is_dirty (pages (snd (UnpinPgImp hash_int (after [NewPg, NewPg]) 1 True)) ! nat 1) \<and>
   is_evictable (replacer (snd (UnpinPgImp hash_int (after [NewPg, NewPg]) 1 True))) 1"
    unfolding u(2,3,4) p using u(1) by simp
  from UnpinPgImp_result [OF r, of 7 True] n
  have 2: "\<not> fst (UnpinPgImp hash_int (after [NewPg, NewPg]) 7 True) \<and>
   snd (UnpinPgImp hash_int (after [NewPg, NewPg]) 7 True) = after [NewPg, NewPg]"
    by blast
  from r f p n 1 2 show ?thesis by blast
qed

text \<open>
  Claim C7. In every reachable state \<open>DeletePgImp\<close> returns, and its first call is
  \<open>DeallocatePage\<close> of the page id, resident or not. On a page that is not resident it
  returns true and does nothing else; on a resident page with a positive pin count it
  returns false and does nothing else, so the page stays bound to its frame; on a
  resident page with pin count zero it returns true after writing the frame to disk if
  it is dirty, removing the frame from the replacer, unbinding the page in the page
  table and appending the frame to the free list.
\<close>

theorem DeletePgImp_result:
  assumes "bpm_reachable h s"
  shows "(\<exists>b s'. DeletePgImp h s P = Inr (b, s') \<and>
            take (Suc (length (trace s))) (trace s') = trace s @ [Deallocate P]) \<and>
         (Find h (page_table s) P = None \<longrightarrow>
            DeletePgImp h s P = Inr (True, s\<lparr>trace := trace s @ [Deallocate P]\<rparr>)) \<and>
         (\<forall>f. Find h (page_table s) P = Some f \<and> 0 < pin_count (pages s ! nat f) \<longrightarrow>
            DeletePgImp h s P = Inr (False, s\<lparr>trace := trace s @ [Deallocate P]\<rparr>) \<and>
            Find h (page_table (s\<lparr>trace := trace s @ [Deallocate P]\<rparr>)) P = Some f) \<and>
         (\<forall>f. Find h (page_table s) P = Some f \<and> pin_count (pages s ! nat f) = 0 \<longrightarrow>
            (\<exists>s'. DeletePgImp h s P = Inr (True, s') \<and>
               trace s' = trace s @ [Deallocate P] @
                 (if is_dirty (pages s ! nat f) then [DiskWrite P (data (pages s ! nat f))] else []) @
                 [TableRemove P] \<and>
               (is_dirty (pages s ! nat f) \<longrightarrow> disk s' P = data (pages s ! nat f)) \<and>
               \<not> tracked (replacer s') f \<and>
               Find h (page_table s') P = None \<and>
               free_list s' = free_list s @ [f]))"
proof -
  note inv = bpm_reachable_inv [OF assms]
  define s0 where "s0 = s\<lparr>trace := trace s @ [Deallocate P]\<rparr>"
  have none: "DeletePgImp h s P = Inr (True, s0)" if "Find h (page_table s) P = None"
    using DeletePgImp_cases(1) [OF inv that] by (simp add: s0_def)
  have pinned: "DeletePgImp h s P = Inr (False, s0) \<and> Find h (page_table s0) P = Some f"
    if "Find h (page_table s) P = Some f" "0 < pin_count (pages s ! nat f)" for f
    using DeletePgImp_cases(2) [OF inv that] that(1) by (simp add: s0_def)
  have unpinned: "\<exists>s'. DeletePgImp h s P = Inr (True, s') \<and>
               trace s' = trace s @ [Deallocate P] @
                 (if is_dirty (pages s ! nat f) then [DiskWrite P (data (pages s ! nat f))] else []) @
                 [TableRemove P] \<and>
               (is_dirty (pages s ! nat f) \<longrightarrow> disk s' P = data (pages s ! nat f)) \<and>
               \<not> tracked (replacer s') f \<and>
               Find h (page_table s') P = None \<and>
               free_list s' = free_list s @ [f]"
    if f: "Find h (page_table s) P = Some f" and p: "pin_count (pages s ! nat f) = 0" for f
  proof -
    from p have np: "\<not> 0 < pin_count (pages s ! nat f)" by simp
    define s' where "s' = (if is_dirty (pages s ! nat f)
                   then clear_first_dirty (WritePage s0 P (data (pages s ! nat f)))
                   else s0)
                  \<lparr>replacer := (replacer s)\<lparr>frame_infos := info_erase (frame_infos (replacer s)) f,
                                           curr_size := curr_size (replacer s) - 1\<rparr>,
                   free_list := free_list s @ [f],
                   page_table := snd (Remove h (page_table s) P),
                   trace := trace s @ [Deallocate P] @
                      (if is_dirty (pages s ! nat f)
                       then [DiskWrite P (data (pages s ! nat f))] else []) @
                      [TableRemove P]\<rparr>"
    from DeletePgImp_cases(3) [OF inv f np] have d: "DeletePgImp h s P = Inr (True, s')"
      by (simp add: s'_def s0_def)
    have 1: "trace s' = trace s @ [Deallocate P] @
                 (if is_dirty (pages s ! nat f) then [DiskWrite P (data (pages s ! nat f))] else []) @
                 [TableRemove P]"
      and 2: "free_list s' = free_list s @ [f]"
      and 3: "page_table s' = snd (Remove h (page_table s) P)"
      and 4: "replacer s' = (replacer s)\<lparr>frame_infos := info_erase (frame_infos (replacer s)) f,
                                           curr_size := curr_size (replacer s) - 1\<rparr>"
      by (simp_all add: s'_def)
    have 5: "disk s' P = data (pages s ! nat f)" if "is_dirty (pages s ! nat f)"
      using that by (simp add: s'_def clear_first_dirty_fields WritePage_fields)
    have 6: "\<not> tracked (replacer s') f" unfolding 4 by (simp add: tracked_erase)
    have 7: "Find h (page_table s') P = None"
      unfolding 3 using Remove_inv_Find(2) [OF bpm_invD(1) [OF inv], of P P] by simp
    from d 1 2 5 6 7 show ?thesis by blast
  qed
  have first: "\<exists>b s'. DeletePgImp h s P = Inr (b, s') \<and>
            take (Suc (length (trace s))) (trace s') = trace s @ [Deallocate P]"
  proof (cases "Find h (page_table s) P")
    case None
    from none [OF None] show ?thesis by (auto simp: s0_def)
  next
    case (Some f)
    show ?thesis
    proof (cases "0 < pin_count (pages s ! nat f)")
      case True
      from pinned [OF Some True] show ?thesis by (auto simp: s0_def)
    next
      case False
      from DeletePgImp_cases(3) [OF inv Some False] have "pin_count (pages s ! nat f) = 0" by simp
      from unpinned [OF Some this] obtain s' where "DeletePgImp h s P = Inr (True, s')"
        and "trace s' = trace s @ [Deallocate P] @
                 (if is_dirty (pages s ! nat f) then [DiskWrite P (data (pages s ! nat f))] else []) @
                 [TableRemove P]" by blast
      then show ?thesis by auto
    qed
  qed
  from first none pinned unpinned show ?thesis unfolding s0_def by blast
qed

theorem DeletePgImp_result_witness:
  "bpm_reachable hash_int (after [NewPg]) \<and>
   Find hash_int (page_table (after [NewPg])) 0 = Some 0 \<and>
   0 < pin_count (pages (after [NewPg]) ! nat 0) \<and>
   DeletePgImp hash_int (after [NewPg]) 0 =
     Inr (False, (after [NewPg])\<lparr>trace := trace (after [NewPg]) @ [Deallocate 0]\<rparr>) \<and>
   bpm_reachable hash_int (after [NewPg, NewPg, UnpinPg 0 True]) \<and>
   Find hash_int (page_table (after [NewPg, NewPg, UnpinPg 0 True])) 0 = Some 0 \<and>
   pin_count (pages (after [NewPg, NewPg, UnpinPg 0 True]) ! nat 0) = 0 \<and>
   is_dirty (pages (after [NewPg, NewPg, UnpinPg 0 True]) ! nat 0) \<and>
   (\<exists>s'. DeletePgImp hash_int (after [NewPg, NewPg, UnpinPg 0 True]) 0 = Inr (True, s') \<and>
         trace s' = trace (after [NewPg, NewPg, UnpinPg 0 True]) @
            [Deallocate 0, DiskWrite 0 (data (pages (after [NewPg, NewPg, UnpinPg 0 True]) ! nat 0)),
             TableRemove 0] \<and>
         \<not> tracked (replacer s') 0 \<and> Find hash_int (page_table s') 0 = None \<and>
         free_list s' = free_list (after [NewPg, NewPg, UnpinPg 0 True]) @ [0]) \<and>
   Find hash_int (page_table (after [NewPg])) 5 = None \<and>
   DeletePgImp hash_int (after [NewPg]) 5 =
     Inr (True, (after [NewPg])\<lparr>trace := trace (after [NewPg]) @ [Deallocate 5]\<rparr>)"
proof -
  note r1 = after_reachable [OF run_E] and r2 = after_reachable [OF run_A]
  have a: "Find hash_int (page_table (after [NewPg])) 0 = Some 0"
    "0 < pin_count (pages (after [NewPg]) ! nat 0)"
    "Find hash_int (page_table (after [NewPg])) 5 = None"
    and b: "Find hash_int (page_table (after [NewPg, NewPg, UnpinPg 0 True])) 0 = Some 0"
    "pin_count (pages (after [NewPg, NewPg, UnpinPg 0 True]) ! nat 0) = 0"
    "is_dirty (pages (after [NewPg, NewPg, UnpinPg 0 True]) ! nat 0)"
    by code_simp+
  from DeletePgImp_result [OF r1, of 0] a
  have 1: "DeletePgImp hash_int (after [NewPg]) 0 =
     Inr (False, (after [NewPg])\<lparr>trace := trace (after [NewPg]) @ [Deallocate 0]\<rparr>)" by blast
  from DeletePgImp_result [OF r1, of 5] a
  have 2: "DeletePgImp hash_int (after [NewPg]) 5 =
     Inr (True, (after [NewPg])\<lparr>trace := trace (after [NewPg]) @ [Deallocate 5]\<rparr>)" by blast
  from DeletePgImp_result [OF r2, of 0] b obtain s' where
    3: "DeletePgImp hash_int (after [NewPg, NewPg, UnpinPg 0 True]) 0 = Inr (True, s')"
      "trace s' = trace (after [NewPg, NewPg, UnpinPg 0 True]) @ [Deallocate 0] @
                 (if is_dirty (pages (after [NewPg, NewPg, UnpinPg 0 True]) ! nat 0)
                  then [DiskWrite 0 (data (pages (after [NewPg, NewPg, UnpinPg 0 True]) ! nat 0))]
                  else []) @ [TableRemove 0]"
      "\<not> tracked (replacer s') 0" "Find hash_int (page_table s') 0 = None"
      "free_list s' = free_list (after [NewPg, NewPg, UnpinPg 0 True]) @ [0]"
    by blast
  from 3(2) b(3) have 4: "trace s' = trace (after [NewPg, NewPg, UnpinPg 0 True]) @
            [Deallocate 0, DiskWrite 0 (data (pages (after [NewPg, NewPg, UnpinPg 0 True]) ! nat 0)),
             TableRemove 0]" by simp
  from r1 r2 a b 1 2 3(1,3,4,5) 4 show ?thesis by blast
qed




text \<open>
  Claim C1 fails on the code. After two \<open>NewPgImp\<close> and an \<open>UnpinPgImp\<close> with the dirty
  bit for each page, page 1 is resident in frame 1 and both frames are dirty.
  \<open>FlushPgImp\<close> of page 1 returns true and writes frame 1's buffer, but it leaves
  the dirty flag of frame 1 set and clears the flag of frame 0, whose page was not
  written.
\<close>

theorem FlushPgImp_clears_first_frame:
  "bpm_reachable hash_int (after [NewPg, NewPg, UnpinPg 0 True, UnpinPg 1 True]) \<and>
   Find hash_int (page_table (after [NewPg, NewPg, UnpinPg 0 True, UnpinPg 1 True])) 1 = Some 1 \<and>
   is_dirty (pages (after [NewPg, NewPg, UnpinPg 0 True, UnpinPg 1 True]) ! 0) \<and>
   is_dirty (pages (after [NewPg, NewPg, UnpinPg 0 True, UnpinPg 1 True]) ! 1) \<and>
   fst (FlushPgImp hash_int (after [NewPg, NewPg, UnpinPg 0 True, UnpinPg 1 True]) 1) \<and>
   trace (snd (FlushPgImp hash_int (after [NewPg, NewPg, UnpinPg 0 True, UnpinPg 1 True]) 1)) =
     trace (after [NewPg, NewPg, UnpinPg 0 True, UnpinPg 1 True]) @
       [DiskWrite 1 (data (pages (after [NewPg, NewPg, UnpinPg 0 True, UnpinPg 1 True]) ! 1))] \<and>
   is_dirty (pages (snd (FlushPgImp hash_int
                           (after [NewPg, NewPg, UnpinPg 0 True, UnpinPg 1 True]) 1)) ! 1) \<and>
   \<not> is_dirty (pages (snd (FlushPgImp hash_int
                           (after [NewPg, NewPg, UnpinPg 0 True, UnpinPg 1 True]) 1)) ! 0)"
proof -
  let ?B = "after [NewPg, NewPg, UnpinPg 0 True, UnpinPg 1 True]"
  have "Find hash_int (page_table ?B) 1 = Some 1"
    and "is_dirty (pages ?B ! 0)" and "is_dirty (pages ?B ! 1)"
    and "fst (FlushPgImp hash_int ?B 1)"
    and "trace (snd (FlushPgImp hash_int ?B 1)) = trace ?B @ [DiskWrite 1 (data (pages ?B ! 1))]"
    and "is_dirty (pages (snd (FlushPgImp hash_int ?B 1)) ! 1)"
    and "\<not> is_dirty (pages (snd (FlushPgImp hash_int ?B 1)) ! 0)"
    by code_simp+
  with after_reachable [OF run_B] show ?thesis by blast
qed

end
